theory Spec2Isabelle
  imports Main "HOL-Library.Word"
begin

section \<open>Data model\<close>

text \<open>
  \<^verbatim>\<open>using Grid = std::vector<std::vector<uint8_t>>\<close>: a list of rows of bytes.
  The grid dimensions \<^verbatim>\<open>gWidth\<close> and \<^verbatim>\<open>gHeight\<close> are process-wide C++ \<^verbatim>\<open>int\<close>s; every
  function that reads them takes them as its first two arguments.
\<close>

type_synonym u8 = "8 word"
type_synonym Grid = "u8 list list"

text \<open>
  \<^verbatim>\<open>struct RuleTables { std::array<uint8_t,9> B{}; std::array<uint8_t,9> S{}; }\<close>
\<close>

record RuleTables =
  B :: "u8 list"
  S :: "u8 list"

text \<open>
  C++ \<^verbatim>\<open>int\<close> is the 32-bit two's-complement type; its values are the \<open>int\<close>s from
  \<open>INT_MIN\<close> to \<open>INT_MAX\<close>. An addition or multiplication whose result is outside this
  range is undefined behaviour, reported as \<open>None\<close>.
\<close>

definition INT_MAX :: int where
  "INT_MAX = 2147483647"

definition INT_MIN :: int where
  "INT_MIN = - 2147483648"

definition int_add :: "int \<Rightarrow> int \<Rightarrow> int option" where
  "int_add a b = (if INT_MIN \<le> a + b \<and> a + b \<le> INT_MAX then Some (a + b) else None)"

definition int_mul :: "int \<Rightarrow> int \<Rightarrow> int option" where
  "int_mul a b = (if INT_MIN \<le> a * b \<and> a * b \<le> INT_MAX then Some (a * b) else None)"

text \<open>
  Reading and writing \<^verbatim>\<open>a[i]\<close> with a C++ \<^verbatim>\<open>int\<close> or \<^verbatim>\<open>size_t\<close> index. Neither
  \<^verbatim>\<open>std::vector\<close>, \<^verbatim>\<open>std::array\<close> nor a built-in array checks the index; an index
  outside the container is undefined behaviour, which the model reports as \<open>None\<close>.
\<close>

definition at :: "'a list \<Rightarrow> int \<Rightarrow> 'a option" where
  "at xs i = (if 0 \<le> i \<and> i < int (length xs) then Some (xs ! nat i) else None)"

definition store :: "'a list \<Rightarrow> int \<Rightarrow> 'a \<Rightarrow> 'a list option" where
  "store xs i v = (if 0 \<le> i \<and> i < int (length xs) then Some (xs[nat i := v]) else None)"

section \<open>Rule model: the rulestring parser\<close>

text \<open>\<^verbatim>\<open>r.find_first_of(cs)\<close>: the first position of \<open>r\<close> holding a character of \<open>cs\<close>;
  \<open>None\<close> is \<^verbatim>\<open>std::string::npos\<close>.\<close>

fun find_first_of :: "string \<Rightarrow> string \<Rightarrow> nat option" where
  "find_first_of [] cs = None"
| "find_first_of (c # r) cs =
     (if c \<in> set cs then Some 0 else map_option Suc (find_first_of r cs))"

text \<open>\<^verbatim>\<open>std::isdigit\<close> on an \<^verbatim>\<open>unsigned char\<close> in the "C" locale (the program never
  calls \<^verbatim>\<open>setlocale\<close>).\<close>

definition isdigit :: "char \<Rightarrow> bool" where
  "isdigit c = (of_char (CHR ''0'') \<le> (of_char c :: nat) \<and> (of_char c :: nat) \<le> of_char (CHR ''9''))"

definition is_marker :: "char \<Rightarrow> bool" where
  "is_marker c = (c = CHR ''/'' \<or> c = CHR ''B'' \<or> c = CHR ''b'' \<or> c = CHR ''S'' \<or> c = CHR ''s'')"

definition in_range :: "char \<Rightarrow> char \<Rightarrow> char \<Rightarrow> bool" where
  "in_range lo hi c = ((of_char lo :: nat) \<le> of_char c \<and> (of_char c :: nat) \<le> of_char hi)"

text \<open>\<^verbatim>\<open>if (invalidChars.find(c) == npos) invalidChars.push_back(c)\<close>\<close>

definition note_invalid :: "char \<Rightarrow> string \<Rightarrow> string" where
  "note_invalid c invalidChars = (if c \<in> set invalidChars then invalidChars else invalidChars @ [c])"

text \<open>
  The lambda \<^verbatim>\<open>fillDigits(s, from, arr)\<close>. Its loop runs over \<^verbatim>\<open>s[from..]\<close>, which is the
  first argument here; the array and the two captured variables \<^verbatim>\<open>invalidFound\<close> and
  \<^verbatim>\<open>invalidChars\<close> are threaded through and returned.
\<close>

fun fillDigits :: "string \<Rightarrow> u8 list \<times> bool \<times> string \<Rightarrow> (u8 list \<times> bool \<times> string) option" where
  "fillDigits [] st = Some st"
| "fillDigits (c # cs) (arr, invalidFound, invalidChars) =
     (if is_marker c then Some (arr, invalidFound, invalidChars)
      else if in_range (CHR ''0'') (CHR ''8'') c then
        (case store arr (int (of_char c) - int (of_char (CHR ''0''))) 1 of
           None \<Rightarrow> None
         | Some arr' \<Rightarrow> fillDigits cs (arr', invalidFound, invalidChars))
      else if in_range (CHR ''0'') (CHR ''9'') c then
        fillDigits cs (arr, True, note_invalid c invalidChars)
      else if isdigit c then
        fillDigits cs (arr, True, note_invalid c invalidChars)
      else fillDigits cs (arr, invalidFound, invalidChars))"

text \<open>The text written to \<^verbatim>\<open>std::cerr\<close> when \<^verbatim>\<open>invalidFound\<close> is set.\<close>

fun comma_separated :: "string \<Rightarrow> string" where
  "comma_separated [] = []"
| "comma_separated [c] = [c]"
| "comma_separated (c # d # cs) = c # CHR '','' # comma_separated (d # cs)"

definition warning :: "bool \<Rightarrow> string \<Rightarrow> string" where
  "warning invalidFound invalidChars =
     (if invalidFound
      then ''Warning: digits >8 ignored in rulestring: '' @ comma_separated invalidChars @ [CHR 0x0A]
      else [])"

definition fill0 :: "u8 list" where
  "fill0 = replicate 9 0"

text \<open>The branch taken when neither marker is found: \<^verbatim>\<open>t.B[3] = 1; t.S[2] = 1; t.S[3] = 1\<close>.\<close>

definition default_tables :: "RuleTables option" where
  "default_tables =
     (case store fill0 3 1 of None \<Rightarrow> None | Some b \<Rightarrow>
       (case store fill0 2 1 of None \<Rightarrow> None | Some s2 \<Rightarrow>
         (case store s2 3 1 of None \<Rightarrow> None | Some s3 \<Rightarrow>
            Some \<lparr>B = b, S = s3\<rparr>)))"

text \<open>
  \<^verbatim>\<open>parse_rulestring(rule)\<close> returns the tables and the text it wrote to \<^verbatim>\<open>std::cerr\<close>.
\<close>

definition parse_rulestring :: "string \<Rightarrow> (RuleTables \<times> string) option" where
  "parse_rulestring rule =
     (let r = filter (\<lambda>c. c \<noteq> CHR '' '' \<and> c \<noteq> CHR '','') rule;
          posB = find_first_of r ''Bb'';
          posS = find_first_of r ''Ss''
      in if posB = None \<and> posS = None
         then map_option (\<lambda>t. (t, [])) default_tables
         else
           (case (case posB of None \<Rightarrow> Some (fill0, False, [])
                    | Some p \<Rightarrow> fillDigits (drop (p + 1) r) (fill0, False, [])) of
              None \<Rightarrow> None
            | Some (tB, found1, chars1) \<Rightarrow>
              (case (case posS of None \<Rightarrow> Some (fill0, found1, chars1)
                       | Some p \<Rightarrow> fillDigits (drop (p + 1) r) (fill0, found1, chars1)) of
                 None \<Rightarrow> None
               | Some (tS, found2, chars2) \<Rightarrow>
                   Some (\<lparr>B = tB, S = tS\<rparr>, warning found2 chars2))))"

subsection \<open>The specification's vocabulary for the rule model\<close>

text \<open>Birth = {3}, Survive = {2, 3}, every other entry false.\<close>

definition conway_tables :: RuleTables where
  "conway_tables = \<lparr>B = [0,0,0,1,0,0,0,0,0], S = [0,0,1,1,0,0,0,0,0]\<rparr>"

text \<open>A well-formed table pair: nine entries each, every entry 0 or 1.\<close>

definition wf_tables :: "RuleTables \<Rightarrow> bool" where
  "wf_tables t = (length (B t) = 9 \<and> length (S t) = 9 \<and> set (B t) \<subseteq> {0, 1} \<and> set (S t) \<subseteq> {0, 1})"

text \<open>Removing spaces and commas; writing the markers in upper case.\<close>

definition strip :: "string \<Rightarrow> string" where
  "strip rule = filter (\<lambda>c. c \<noteq> CHR '' '' \<and> c \<noteq> CHR '','') rule"

definition marker_upper :: "char \<Rightarrow> char" where
  "marker_upper c = (if c = CHR ''b'' then CHR ''B'' else if c = CHR ''s'' then CHR ''S'' else c)"

text \<open>
  The characters scanned for a section whose marker is at \<open>pos\<close>: those after the marker
  up to the next marker character or the end. The invalid digits are the digit characters
  other than \<open>0\<close> to \<open>8\<close>; the diagnostic names each of them once, in the order in which
  they are first met (B section first, then S section).
\<close>

definition scanned :: "string \<Rightarrow> nat option \<Rightarrow> string" where
  "scanned r pos = (case pos of None \<Rightarrow> [] | Some p \<Rightarrow> takeWhile (\<lambda>c. \<not> is_marker c) (drop (p + 1) r))"

definition invalid_digit :: "char \<Rightarrow> bool" where
  "invalid_digit c = (isdigit c \<and> \<not> in_range (CHR ''0'') (CHR ''8'') c)"

definition first_seen :: "'a list \<Rightarrow> 'a list" where
  "first_seen xs = rev (remdups (rev xs))"

definition spec_diagnostic :: "string \<Rightarrow> string" where
  "spec_diagnostic rule =
     (let r = strip rule;
          invalid = filter invalid_digit (scanned r (find_first_of r ''Bb'') @ scanned r (find_first_of r ''Ss''))
      in if invalid = [] then []
         else ''Warning: digits >8 ignored in rulestring: '' @ comma_separated (first_seen invalid) @ [CHR 0x0A])"

section \<open>Grid stepper\<close>

subsection \<open>C++ operators and loops\<close>

text \<open>\<^verbatim>\<open>a % b\<close> on \<^verbatim>\<open>int\<close>: the remainder of the division truncated towards zero;
  a zero divisor, and \<^verbatim>\<open>INT_MIN % -1\<close> whose quotient overflows, are undefined behaviour.\<close>

definition c_rem :: "int \<Rightarrow> int \<Rightarrow> int option" where
  "c_rem a b =
     (if b = 0 \<or> (a = INT_MIN \<and> b = - 1) then None else Some (sgn a * (\<bar>a\<bar> mod \<bar>b\<bar>)))"

text \<open>The index expression \<^verbatim>\<open>(i + d + n) % n\<close>: two additions, left to right, then the
  remainder.\<close>

definition wrap_index :: "int \<Rightarrow> int \<Rightarrow> int \<Rightarrow> int option" where
  "wrap_index i d n =
     (case int_add i d of None \<Rightarrow> None | Some a \<Rightarrow>
       (case int_add a n of None \<Rightarrow> None | Some b \<Rightarrow> c_rem b n))"

text \<open>\<^verbatim>\<open>a && b\<close> and \<^verbatim>\<open>a || b\<close>: the right operand is not evaluated, and so cannot go
  wrong, when the left one decides the result.\<close>

definition and_sc :: "bool option \<Rightarrow> bool option \<Rightarrow> bool option" where
  "and_sc a b = (case a of None \<Rightarrow> None | Some False \<Rightarrow> Some False | Some True \<Rightarrow> b)"

definition or_sc :: "bool option \<Rightarrow> bool option \<Rightarrow> bool option" where
  "or_sc a b = (case a of None \<Rightarrow> None | Some True \<Rightarrow> Some True | Some False \<Rightarrow> b)"

text \<open>A byte used as a condition.\<close>

definition truth :: "u8 option \<Rightarrow> bool option" where
  "truth v = map_option (\<lambda>b. b \<noteq> 0) v"

text \<open>\<^verbatim>\<open>for (int i = lo; i < n; ++i) body\<close> and \<^verbatim>\<open>for (int i = lo; i <= hi; ++i) body\<close>;
  the body transforms the state or goes wrong. The increment is reached only with
  \<open>i < n\<close> (\<open>i \<le> hi\<close> with the constant bound \<open>hi = 1\<close>), where \<open>n\<close> is an
  \<^verbatim>\<open>int\<close>, so it cannot overflow.\<close>

function for_lt :: "int \<Rightarrow> int \<Rightarrow> (int \<Rightarrow> 's \<Rightarrow> 's option) \<Rightarrow> 's \<Rightarrow> 's option" where
  "for_lt i n body s =
     (if i < n
      then (case body i s of None \<Rightarrow> None | Some s' \<Rightarrow> for_lt (i + 1) n body s')
      else Some s)"
  by pat_completeness auto
termination
  by (relation "measure (\<lambda>(i, n, body, s). nat (n - i))") auto

definition for_le :: "int \<Rightarrow> int \<Rightarrow> (int \<Rightarrow> 's \<Rightarrow> 's option) \<Rightarrow> 's \<Rightarrow> 's option" where
  "for_le i hi body s = for_lt i (hi + 1) body s"

subsection \<open>Cells\<close>

text \<open>\<^verbatim>\<open>g[y][x]\<close> as a value and \<^verbatim>\<open>g[y][x] = v\<close>.\<close>

definition cell :: "Grid \<Rightarrow> int \<Rightarrow> int \<Rightarrow> u8 option" where
  "cell g y x = (case at g y of None \<Rightarrow> None | Some row \<Rightarrow> at row x)"

definition put :: "Grid \<Rightarrow> int \<Rightarrow> int \<Rightarrow> u8 \<Rightarrow> Grid option" where
  "put g y x v =
     (case at g y of None \<Rightarrow> None
      | Some row \<Rightarrow> (case store row x v of None \<Rightarrow> None | Some row' \<Rightarrow> store g y row'))"

subsection \<open>Neighbour counting\<close>

text \<open>
  \<^verbatim>\<open>neighbor_count(g, y, x)\<close>, the same text in all three programs (the fixed-size one
  reads the constants \<^verbatim>\<open>kWidth\<close>, \<^verbatim>\<open>kHeight\<close>). The cell is promoted from
  \<^verbatim>\<open>uint8_t\<close> to \<^verbatim>\<open>int\<close> before it is added. The index arithmetic
  \<^verbatim>\<open>y + dy + gHeight\<close> and \<^verbatim>\<open>x + dx + gWidth\<close> is done in \<^verbatim>\<open>int\<close>: for the last row or
  column of a grid with a dimension of \<open>2^30\<close> or more the sum exceeds \<open>INT_MAX\<close>.
\<close>

definition neighbor_count :: "int \<Rightarrow> int \<Rightarrow> Grid \<Rightarrow> int \<Rightarrow> int \<Rightarrow> int option" where
  "neighbor_count gWidth gHeight g y x =
     for_le (- 1) 1 (\<lambda>dy.
       for_le (- 1) 1 (\<lambda>dx cnt.
         if dy \<noteq> 0 \<or> dx \<noteq> 0
         then (case wrap_index y dy gHeight of None \<Rightarrow> None | Some yy \<Rightarrow>
                (case wrap_index x dx gWidth of None \<Rightarrow> None | Some xx \<Rightarrow>
                  (case cell g yy xx of None \<Rightarrow> None | Some v \<Rightarrow> int_add cnt (uint v))))
         else Some cnt)) 0"

subsection \<open>The step kernels\<close>

text \<open>
  The state of a step is the pair of buffers \<open>(cur, nxt)\<close> that the two reference
  parameters name; they are distinct objects in every caller (\<^verbatim>\<open>Grid nxt = cur;\<close> makes a
  copy). \<^verbatim>\<open>cur.swap(nxt)\<close> exchanges the contents of the two.
\<close>

definition swap_bufs :: "Grid \<times> Grid \<Rightarrow> Grid \<times> Grid" where
  "swap_bufs s = (snd s, fst s)"

text \<open>
  The table-driven kernel of \<^verbatim>\<open>invertAmazeLife_openMP_parallel_for.cpp\<close>:
  \<^verbatim>\<open>int n = neighbor_count(cur, y, x); bool alive = cur[y][x] != 0;
  bool nextAlive = (!alive && B[n]) || (alive && S[n]);
  nxt[y][x] = static_cast<uint8_t>(nextAlive);\<close>
  with the two 9-entry tables as parameters.
\<close>

definition rule_cell :: "u8 list \<Rightarrow> u8 list \<Rightarrow> int \<Rightarrow> int \<Rightarrow> int \<Rightarrow> int \<Rightarrow> Grid \<times> Grid \<Rightarrow> (Grid \<times> Grid) option" where
  "rule_cell tB tS gWidth gHeight y x s =
     (case neighbor_count gWidth gHeight (fst s) y x of None \<Rightarrow> None | Some n \<Rightarrow>
       (case cell (fst s) y x of None \<Rightarrow> None | Some c \<Rightarrow>
         (let alive = (c \<noteq> 0) in
           (case or_sc (and_sc (Some (\<not> alive)) (truth (at tB n)))
                       (and_sc (Some alive) (truth (at tS n))) of
              None \<Rightarrow> None
            | Some nextAlive \<Rightarrow>
               (case put (snd s) y x (of_bool nextAlive) of
                  None \<Rightarrow> None
                | Some nxt' \<Rightarrow> Some (fst s, nxt'))))))"

text \<open>The loop nest run by one thread, in row-major order, followed by the swap.\<close>

definition step_rule :: "u8 list \<Rightarrow> u8 list \<Rightarrow> int \<Rightarrow> int \<Rightarrow> Grid \<times> Grid \<Rightarrow> (Grid \<times> Grid) option" where
  "step_rule tB tS gWidth gHeight s =
     map_option swap_bufs
       (for_lt 0 gHeight (\<lambda>y. for_lt 0 gWidth (\<lambda>x. rule_cell tB tS gWidth gHeight y x)) s)"

text \<open>\<^verbatim>\<open>static const uint8_t B[9] = {1,0,1,0,0,0,0,0,1}; // 028\<close> and
  \<^verbatim>\<open>static const uint8_t S[9] = {1,1,1,0,1,0,0,0,0}; // 0124\<close>\<close>

definition B028 :: "u8 list" where
  "B028 = [1,0,1,0,0,0,0,0,1]"

definition S0124 :: "u8 list" where
  "S0124 = [1,1,1,0,1,0,0,0,0]"

definition step_invertAmaze :: "int \<Rightarrow> int \<Rightarrow> Grid \<times> Grid \<Rightarrow> (Grid \<times> Grid) option" where
  "step_invertAmaze gWidth gHeight s = step_rule B028 S0124 gWidth gHeight s"

text \<open>
  \<^verbatim>\<open>#pragma omp parallel for collapse(2) schedule(static)\<close>: the two loops form one
  iteration space of \<open>(y, x)\<close> pairs, which is cut into chunks, one per thread. Each
  iteration runs once; an execution is an order in which the iterations of all threads
  take effect. The swap follows the barrier at the end of the loop.
\<close>

definition cells :: "int \<Rightarrow> int \<Rightarrow> (int \<times> int) list" where
  "cells gWidth gHeight = concat (map (\<lambda>y. map (Pair y) [0..gWidth - 1]) [0..gHeight - 1])"

definition schedule :: "int \<Rightarrow> int \<Rightarrow> (int \<times> int) list \<Rightarrow> bool" where
  "schedule gWidth gHeight order = (distinct order \<and> set order = set (cells gWidth gHeight))"

fun run_iterations :: "('a \<Rightarrow> 's \<Rightarrow> 's option) \<Rightarrow> 'a list \<Rightarrow> 's \<Rightarrow> 's option" where
  "run_iterations body [] s = Some s"
| "run_iterations body (i # is) s =
     (case body i s of None \<Rightarrow> None | Some s' \<Rightarrow> run_iterations body is s')"

definition step_rule_omp :: "(int \<times> int) list \<Rightarrow> u8 list \<Rightarrow> u8 list \<Rightarrow> int \<Rightarrow> int \<Rightarrow> Grid \<times> Grid \<Rightarrow> (Grid \<times> Grid) option" where
  "step_rule_omp order tB tS gWidth gHeight s =
     map_option swap_bufs
       (run_iterations (\<lambda>(y, x). rule_cell tB tS gWidth gHeight y x) order s)"

text \<open>
  The sequential Conway kernel of the runtime-sized program:
  \<^verbatim>\<open>int n = neighbor_count(cur, y, x); nxt[y][x] = (n == 3) || (cur[y][x] && n == 2);\<close>
\<close>

definition life_cell :: "int \<Rightarrow> int \<Rightarrow> int \<Rightarrow> int \<Rightarrow> Grid \<times> Grid \<Rightarrow> (Grid \<times> Grid) option" where
  "life_cell gWidth gHeight y x s =
     (case neighbor_count gWidth gHeight (fst s) y x of None \<Rightarrow> None | Some n \<Rightarrow>
       (case or_sc (Some (n = 3)) (and_sc (truth (cell (fst s) y x)) (Some (n = 2))) of
          None \<Rightarrow> None
        | Some v \<Rightarrow>
           (case put (snd s) y x (of_bool v) of
              None \<Rightarrow> None
            | Some nxt' \<Rightarrow> Some (fst s, nxt'))))"

definition step_life :: "int \<Rightarrow> int \<Rightarrow> Grid \<times> Grid \<Rightarrow> (Grid \<times> Grid) option" where
  "step_life gWidth gHeight s =
     map_option swap_bufs
       (for_lt 0 gHeight (\<lambda>y. for_lt 0 gWidth (\<lambda>x. life_cell gWidth gHeight y x)) s)"

text \<open>The fixed-size program is the same text over \<^verbatim>\<open>constexpr int kWidth = 80\<close> and
  \<^verbatim>\<open>kHeight = 24\<close>.\<close>

definition kWidth :: int where
  "kWidth = 80"

definition kHeight :: int where
  "kHeight = 24"

definition step_fixed :: "Grid \<times> Grid \<Rightarrow> (Grid \<times> Grid) option" where
  "step_fixed s = step_life kWidth kHeight s"

subsection \<open>The driver\<close>

text \<open>
  \<^verbatim>\<open>main\<close> after its argument loop, which leaves the options in \<^verbatim>\<open>draw_enabled\<close>,
  \<^verbatim>\<open>steps\<close>, \<^verbatim>\<open>gWidth\<close> and \<^verbatim>\<open>gHeight\<close>. The outcome records the exit status, the text
  written to \<^verbatim>\<open>std::cerr\<close> and the number of calls of \<^verbatim>\<open>step\<close> that were made.
\<close>

record options =
  opt_draw_enabled :: bool
  opt_steps :: int
  opt_gWidth :: int
  opt_gHeight :: int

datatype outcome =
    Exited int string nat
  | Undefined_behaviour
  | Still_running

text \<open>\<^verbatim>\<open>random_init\<close> overwrites every cell, row by row, with the next Bernoulli draw;
  the draws are the stream \<open>coin\<close>.\<close>

definition random_init :: "(nat \<Rightarrow> bool) \<Rightarrow> Grid \<Rightarrow> Grid" where
  "random_init coin g =
     map (\<lambda>y. map (\<lambda>x. of_bool (coin (y * length (g ! y) + x))) [0..<length (g ! y)]) [0..<length g]"

text \<open>\<^verbatim>\<open>for (int i = 0; i < steps; ++i) step(cur, nxt);\<close> of the benchmark mode, counting
  the calls.\<close>

definition benchmark_loop :: "(Grid \<times> Grid \<Rightarrow> (Grid \<times> Grid) option) \<Rightarrow> int \<Rightarrow> (Grid \<times> Grid) \<times> nat \<Rightarrow> ((Grid \<times> Grid) \<times> nat) option" where
  "benchmark_loop stepf steps st =
     for_lt 0 steps (\<lambda>i st. map_option (\<lambda>s'. (s', snd st + 1)) (stepf (fst st))) st"

text \<open>The benchmark report prints \<^verbatim>\<open>(ms * 1000.0) / (steps * gWidth * gHeight)\<close>; the
  product is computed in \<^verbatim>\<open>int\<close>, left to right, before the conversion to
  \<^verbatim>\<open>double\<close>.\<close>

definition report_cells :: "int \<Rightarrow> int \<Rightarrow> int \<Rightarrow> int option" where
  "report_cells steps gWidth gHeight =
     (case int_mul steps gWidth of None \<Rightarrow> None | Some p \<Rightarrow> int_mul p gHeight)"

text \<open>\<^verbatim>\<open>while (steps < 0 || iter < steps) { ...; step(cur, nxt); ...; ++iter; }\<close> of the
  interactive mode. With \<^verbatim>\<open>steps < 0\<close> it ends only when \<^verbatim>\<open>++iter\<close> overflows; the
  fuel bounds the iterations that are followed.\<close>

fun interactive_loop :: "nat \<Rightarrow> (Grid \<times> Grid \<Rightarrow> (Grid \<times> Grid) option) \<Rightarrow> int \<Rightarrow> int \<Rightarrow> (Grid \<times> Grid) \<times> nat \<Rightarrow> outcome" where
  "interactive_loop 0 stepf steps iter st = Still_running"
| "interactive_loop (Suc fuel) stepf steps iter st =
     (if steps < 0 \<or> iter < steps
      then (case stepf (fst st) of
              None \<Rightarrow> Undefined_behaviour
            | Some s' \<Rightarrow>
               (case int_add iter 1 of
                  None \<Rightarrow> Undefined_behaviour
                | Some iter' \<Rightarrow> interactive_loop fuel stepf steps iter' (s', snd st + 1)))
      else Exited 0 [] (snd st))"

definition run_main :: "(int \<Rightarrow> int \<Rightarrow> Grid \<times> Grid \<Rightarrow> (Grid \<times> Grid) option) \<Rightarrow> nat \<Rightarrow> (nat \<Rightarrow> bool) \<Rightarrow> options \<Rightarrow> outcome" where
  "run_main stepf fuel coin opts =
     (if opt_gWidth opts \<le> 0 \<or> opt_gHeight opts \<le> 0
      then Exited 1 (''Invalid dimensions'' @ [CHR 0x0A]) 0
      else
        let nxt = replicate (nat (opt_gHeight opts)) (replicate (nat (opt_gWidth opts)) 0);
            cur = random_init coin nxt
        in if \<not> opt_draw_enabled opts \<and> opt_steps opts > 0
           then (case benchmark_loop (stepf (opt_gWidth opts) (opt_gHeight opts)) (opt_steps opts) ((cur, nxt), 0) of
                   None \<Rightarrow> Undefined_behaviour
                 | Some st \<Rightarrow>
                    (case report_cells (opt_steps opts) (opt_gWidth opts) (opt_gHeight opts) of
                       None \<Rightarrow> Undefined_behaviour
                     | Some cells_done \<Rightarrow> Exited 0 [] (snd st)))
           else interactive_loop fuel (stepf (opt_gWidth opts) (opt_gHeight opts)) (opt_steps opts) 0 ((cur, nxt), 0))"

text \<open>The runtime-sized sequential program and the OpenMP program.\<close>

definition main_life :: "nat \<Rightarrow> (nat \<Rightarrow> bool) \<Rightarrow> options \<Rightarrow> outcome" where
  "main_life = run_main step_life"

definition main_invertAmaze :: "nat \<Rightarrow> (nat \<Rightarrow> bool) \<Rightarrow> options \<Rightarrow> outcome" where
  "main_invertAmaze = run_main step_invertAmaze"

section \<open>The specification's vocabulary\<close>

text \<open>A grid of the stated dimensions, and one whose cells are single bits.\<close>

definition wf_grid :: "int \<Rightarrow> int \<Rightarrow> Grid \<Rightarrow> bool" where
  "wf_grid width height g = (int (length g) = height \<and> (\<forall>row \<in> set g. int (length row) = width))"

definition bit_valued :: "Grid \<Rightarrow> bool" where
  "bit_valued g = (\<forall>row \<in> set g. \<forall>c \<in> set row. c = 0 \<or> c = 1)"

text \<open>Dimensions for which the index arithmetic of every cell stays within \<^verbatim>\<open>int\<close>:
  both positive and at most \<open>2^30 - 1 = 1073741823\<close>.\<close>

definition dims_fit :: "int \<Rightarrow> int \<Rightarrow> bool" where
  "dims_fit width height =
     (0 < width \<and> 0 < height \<and> 2 * width \<le> INT_MAX \<and> 2 * height \<le> INT_MAX)"

definition wf_table :: "u8 list \<Rightarrow> bool" where
  "wf_table t = (length t = 9)"

text \<open>
  The specification's per-cell rule, in its words:
  \<open>count = \<Sum> current[(y+dy+height)%height][(x+dx+width)%width]\<close> for
  \<open>dy, dx \<in> {-1,0,1}\<close> excluding \<open>(0,0)\<close>; \<open>alive = current[y][x] \<noteq> 0\<close>;
  \<open>nextAlive = (not alive AND Birth[count]) OR (alive AND Survive[count])\<close>.
  Here \<open>%\<close> is the mathematical \<open>mod\<close> and indexing is that of lists.
\<close>

definition neighbour_offsets :: "(int \<times> int) list" where
  "neighbour_offsets = [(dy, dx). dy \<leftarrow> [- 1, 0, 1], dx \<leftarrow> [- 1, 0, 1], (dy, dx) \<noteq> (0, 0)]"

definition spec_neighbour :: "int \<Rightarrow> int \<Rightarrow> Grid \<Rightarrow> int \<Rightarrow> int \<Rightarrow> int \<times> int \<Rightarrow> u8" where
  "spec_neighbour width height current y x d =
     current ! nat ((y + fst d + height) mod height) ! nat ((x + snd d + width) mod width)"

definition spec_count :: "int \<Rightarrow> int \<Rightarrow> Grid \<Rightarrow> int \<Rightarrow> int \<Rightarrow> int" where
  "spec_count width height current y x =
     (\<Sum>d \<leftarrow> neighbour_offsets. uint (spec_neighbour width height current y x d))"

definition spec_alive :: "Grid \<Rightarrow> int \<Rightarrow> int \<Rightarrow> bool" where
  "spec_alive current y x = (current ! nat y ! nat x \<noteq> 0)"

definition spec_nextAlive :: "u8 list \<Rightarrow> u8 list \<Rightarrow> bool \<Rightarrow> int \<Rightarrow> bool" where
  "spec_nextAlive Birth Survive alive count =
     ((\<not> alive \<and> Birth ! nat count \<noteq> 0) \<or> (alive \<and> Survive ! nat count \<noteq> 0))"

definition spec_next :: "u8 list \<Rightarrow> u8 list \<Rightarrow> int \<Rightarrow> int \<Rightarrow> Grid \<Rightarrow> int \<Rightarrow> int \<Rightarrow> u8" where
  "spec_next Birth Survive width height current y x =
     of_bool (spec_nextAlive Birth Survive (spec_alive current y x) (spec_count width height current y x))"

text \<open>The Conway rule in the specification's words: a cell survives with exactly 2 or 3
  live neighbours; a dead cell is born with exactly 3.\<close>

definition spec_conway :: "int \<Rightarrow> int \<Rightarrow> Grid \<Rightarrow> int \<Rightarrow> int \<Rightarrow> u8" where
  "spec_conway width height current y x =
     (let count = spec_count width height current y x
      in of_bool (if spec_alive current y x then count = 2 \<or> count = 3 else count = 3))"

text \<open>The grid whose cell \<open>(y, x)\<close> is \<open>f y x\<close>.\<close>

definition grid_of :: "int \<Rightarrow> int \<Rightarrow> (int \<Rightarrow> int \<Rightarrow> u8) \<Rightarrow> Grid" where
  "grid_of width height f = map (\<lambda>y. map (\<lambda>x. f y x) [0..width - 1]) [0..height - 1]"

text \<open>A 2x2 block of live cells with its top-left corner at \<open>(y0, x0)\<close> on an otherwise
  dead torus; the block may straddle the seam.\<close>

definition in_block :: "int \<Rightarrow> int \<Rightarrow> int \<Rightarrow> int \<Rightarrow> int \<Rightarrow> int \<Rightarrow> bool" where
  "in_block width height y0 x0 y x =
     ((y = y0 \<or> y = (y0 + 1) mod height) \<and> (x = x0 \<or> x = (x0 + 1) mod width))"

definition block_grid :: "int \<Rightarrow> int \<Rightarrow> int \<Rightarrow> int \<Rightarrow> Grid" where
  "block_grid width height y0 x0 = grid_of width height (\<lambda>y x. of_bool (in_block width height y0 x0 y x))"

text \<open>No neighbour sum of the grid exceeds the last index of a rule table.\<close>

definition counts_in_table :: "int \<Rightarrow> int \<Rightarrow> Grid \<Rightarrow> bool" where
  "counts_in_table w h g = (\<forall>(y, x) \<in> set (cells w h). spec_count w h g y x \<le> 8)"

section \<open>Properties of the rule model\<close>

subsection \<open>Markers, stripping and case\<close>

lemma find_first_of_None: "find_first_of r cs = None \<longleftrightarrow> set r \<inter> set cs = {}"
  by (induction r) auto

lemma default_tables_eq: "default_tables = Some conway_tables"
  by (simp add: default_tables_def conway_tables_def store_def fill0_def numeral_eq_Suc)

lemma parse_no_marker:
  assumes "set rule \<inter> set ''BbSs'' = {}"
  shows "parse_rulestring rule = Some (conway_tables, [])"
proof -
  let ?r = "filter (\<lambda>c. c \<noteq> CHR '' '' \<and> c \<noteq> CHR '','') rule"
  have "set ?r \<inter> set ''Bb'' = {}" "set ?r \<inter> set ''Ss'' = {}"
    using assms by auto
  then have "find_first_of ?r ''Bb'' = None" "find_first_of ?r ''Ss'' = None"
    by (simp_all only: find_first_of_None)
  then show ?thesis
    by (simp add: parse_rulestring_def Let_def default_tables_eq)
qed

lemma parse_strip: "parse_rulestring (strip rule) = parse_rulestring rule"
  by (simp add: parse_rulestring_def strip_def)

lemma find_first_of_map_Bb:
  "find_first_of (map marker_upper r) ''Bb'' = find_first_of r ''Bb''"
  by (induction r) (auto simp: marker_upper_def)

lemma find_first_of_map_Ss:
  "find_first_of (map marker_upper r) ''Ss'' = find_first_of r ''Ss''"
  by (induction r) (auto simp: marker_upper_def)

lemma marker_upper_cases: "is_marker c \<and> is_marker (marker_upper c) \<or> \<not> is_marker c \<and> marker_upper c = c"
  by (auto simp: marker_upper_def is_marker_def)

lemma fillDigits_map: "fillDigits (map marker_upper cs) st = fillDigits cs st"
proof (induction cs st rule: fillDigits.induct)
  case (1 st)
  then show ?case by simp
next
  case (2 c cs arr invalidFound invalidChars)
  show ?case
  proof (cases "is_marker c")
    case True
    then have "is_marker (marker_upper c)" using marker_upper_cases [of c] by auto
    with True show ?thesis by simp
  next
    case False
    then have eq: "marker_upper c = c" using marker_upper_cases [of c] by auto
    show ?thesis using False 2 by (simp add: eq split: option.splits)
  qed
qed

lemma filter_map_upper:
  "filter (\<lambda>c. c \<noteq> CHR '' '' \<and> c \<noteq> CHR '','') (map marker_upper rule)
   = map marker_upper (filter (\<lambda>c. c \<noteq> CHR '' '' \<and> c \<noteq> CHR '','') rule)"
  by (induction rule) (auto simp: marker_upper_def)

lemma parse_upper: "parse_rulestring (map marker_upper rule) = parse_rulestring rule"
  by (simp only: parse_rulestring_def Let_def filter_map_upper find_first_of_map_Bb find_first_of_map_Ss
      drop_map fillDigits_map)

subsection \<open>The diagnostic and totality\<close>

lemma first_seen_snoc:
  "first_seen (xs @ [x]) = (if x \<in> set xs then first_seen xs else first_seen xs @ [x])"
  by (simp add: first_seen_def)

lemma set_first_seen: "set (first_seen xs) = set xs"
  by (simp add: first_seen_def)

lemma fold_note_invalid: "fold note_invalid xs [] = first_seen xs"
proof (induction xs rule: rev_induct)
  case Nil
  then show ?case by (simp add: first_seen_def)
next
  case (snoc x xs)
  then show ?case
    by (simp add: first_seen_snoc note_invalid_def set_first_seen)
qed

lemma digit_index:
  assumes "in_range (CHR ''0'') (CHR ''8'') c"
  shows "0 \<le> int (of_char c) - int (of_char (CHR ''0''))" "int (of_char c) - int (of_char (CHR ''0'')) < 9"
  using assms by (simp_all add: in_range_def)

lemma set_update_bits:
  assumes "set arr \<subseteq> {0, 1 :: u8}"
  shows "set (arr[i := 1]) \<subseteq> {0, 1}"
  using assms set_update_subset_insert [of arr i 1] by auto

lemma fillDigits_total:
  assumes "length arr = 9" "set arr \<subseteq> {0, 1}"
  shows "\<exists>arr' f' ch'. fillDigits cs (arr, f, ch) = Some (arr', f', ch') \<and> length arr' = 9 \<and> set arr' \<subseteq> {0, 1}
     \<and> f' = (f \<or> filter invalid_digit (takeWhile (\<lambda>c. \<not> is_marker c) cs) \<noteq> [])
     \<and> ch' = fold note_invalid (filter invalid_digit (takeWhile (\<lambda>c. \<not> is_marker c) cs)) ch"
  using assms
proof (induction cs "(arr, f, ch)" arbitrary: arr f ch rule: fillDigits.induct)
  case 1
  then show ?case by simp
next
  case (2 c cs arr f ch)
  show ?case
  proof (cases "is_marker c")
    case True
    with 2 show ?thesis by simp
  next
    case nm: False
    show ?thesis
    proof (cases "in_range (CHR ''0'') (CHR ''8'') c")
      case True
      let ?i = "int (of_char c) - int (of_char (CHR ''0''))"
      have st: "store arr ?i 1 = Some (arr[nat ?i := 1])"
        using digit_index [OF True] "2.prems" by (simp add: store_def)
      have ni: "\<not> invalid_digit c" using True by (simp add: invalid_digit_def)
      have "length (arr[nat ?i := 1]) = 9" "set (arr[nat ?i := 1]) \<subseteq> {0, 1}"
        using "2.prems" set_update_bits by simp_all
      from "2.hyps"(1) [OF nm True st this] show ?thesis
        using nm True st ni by simp
    next
      case n8: False
      show ?thesis
      proof (cases "isdigit c")
        case True
        then have r9: "in_range (CHR ''0'') (CHR ''9'') c" by (simp add: isdigit_def in_range_def)
        have inv: "invalid_digit c" using True n8 by (simp add: invalid_digit_def)
        from "2.hyps"(2) [OF nm n8 r9 "2.prems"] show ?thesis
          using nm n8 r9 inv by simp
      next
        case False
        then have r9: "\<not> in_range (CHR ''0'') (CHR ''9'') c" by (simp add: isdigit_def in_range_def)
        have inv: "\<not> invalid_digit c" using False by (simp add: invalid_digit_def)
        from "2.hyps"(4) [OF nm n8 r9 False "2.prems"] show ?thesis
          using nm n8 r9 inv False by simp
      qed
    qed
  qed
qed

lemma fill0_wf: "length fill0 = 9" "set fill0 \<subseteq> {0, 1}"
  by (simp_all add: fill0_def)

lemma section_scan:
  "\<exists>arr'. (case pos of None \<Rightarrow> Some (fill0, f, ch) | Some p \<Rightarrow> fillDigits (drop (p + 1) r) (fill0, f, ch))
       = Some (arr', f \<or> filter invalid_digit (scanned r pos) \<noteq> [],
               fold note_invalid (filter invalid_digit (scanned r pos)) ch)
     \<and> length arr' = 9 \<and> set arr' \<subseteq> {0, 1}"
proof (cases pos)
  case None
  then show ?thesis using fill0_wf by (simp add: scanned_def)
next
  case (Some p)
  from fillDigits_total [OF fill0_wf, of "drop (p + 1) r" f ch] Some show ?thesis
    by (auto simp: scanned_def)
qed

lemma default_tables_wf: "\<exists>t. default_tables = Some t \<and> wf_tables t"
  by (simp add: default_tables_def store_def fill0_def wf_tables_def set_update_bits)

lemma parse_total:
  "\<exists>t w. parse_rulestring rule = Some (t, w) \<and> wf_tables t \<and> w = spec_diagnostic rule"
proof -
  define r where "r = filter (\<lambda>c. c \<noteq> CHR '' '' \<and> c \<noteq> CHR '','') rule"
  define posB where "posB = find_first_of r ''Bb''"
  define posS where "posS = find_first_of r ''Ss''"
  define invB where "invB = filter invalid_digit (scanned r posB)"
  define invS where "invS = filter invalid_digit (scanned r posS)"
  have diag: "spec_diagnostic rule = warning (invB \<noteq> [] \<or> invS \<noteq> []) (first_seen (invB @ invS))"
    by (simp add: spec_diagnostic_def strip_def Let_def warning_def r_def posB_def posS_def invB_def invS_def)
  have unfold: "parse_rulestring rule =
     (if posB = None \<and> posS = None
         then map_option (\<lambda>t. (t, [])) default_tables
         else
           (case (case posB of None \<Rightarrow> Some (fill0, False, [])
                    | Some p \<Rightarrow> fillDigits (drop (p + 1) r) (fill0, False, [])) of
              None \<Rightarrow> None
            | Some (tB, found1, chars1) \<Rightarrow>
              (case (case posS of None \<Rightarrow> Some (fill0, found1, chars1)
                       | Some p \<Rightarrow> fillDigits (drop (p + 1) r) (fill0, found1, chars1)) of
                 None \<Rightarrow> None
               | Some (tS, found2, chars2) \<Rightarrow>
                   Some (\<lparr>B = tB, S = tS\<rparr>, warning found2 chars2))))"
    by (simp only: parse_rulestring_def Let_def r_def posB_def posS_def)
  show ?thesis
  proof (cases "posB = None \<and> posS = None")
    case True
    then have "invB = []" "invS = []" by (simp_all add: invB_def invS_def scanned_def)
    then have "spec_diagnostic rule = []" using diag by (simp add: warning_def)
    moreover obtain t where "default_tables = Some t" "wf_tables t"
      using default_tables_wf by blast
    ultimately show ?thesis using True by (auto simp add: unfold)
  next
    case False
    obtain tB where tB: "(case posB of None \<Rightarrow> Some (fill0, False, []) | Some p \<Rightarrow> fillDigits (drop (p + 1) r) (fill0, False, []))
         = Some (tB, invB \<noteq> [], fold note_invalid invB [])" "length tB = 9" "set tB \<subseteq> {0, 1}"
      using section_scan [where pos = posB and f = False and ch = "[]" and r = r] unfolding invB_def by auto
    obtain tS where tS: "(case posS of None \<Rightarrow> Some (fill0, invB \<noteq> [], fold note_invalid invB []) 
            | Some p \<Rightarrow> fillDigits (drop (p + 1) r) (fill0, invB \<noteq> [], fold note_invalid invB []))
         = Some (tS, invB \<noteq> [] \<or> invS \<noteq> [], fold note_invalid invS (fold note_invalid invB []))"
         "length tS = 9" "set tS \<subseteq> {0, 1}"
      using section_scan [where pos = posS and f = "invB \<noteq> []" and ch = "fold note_invalid invB []" and r = r]
      unfolding invS_def by blast
    have chars: "fold note_invalid invS (fold note_invalid invB []) = first_seen (invB @ invS)"
      using fold_note_invalid [of "invB @ invS"] by simp
    have "parse_rulestring rule = Some (\<lparr>B = tB, S = tS\<rparr>, warning (invB \<noteq> [] \<or> invS \<noteq> []) (first_seen (invB @ invS)))"
      by (simp only: unfold False if_False tB(1) tS(1) option.case prod.case chars)
    then show ?thesis using diag tB tS by (simp add: wf_tables_def)
  qed
qed

subsection \<open>The claims about the parser\<close>

text \<open>
  C5. The empty rulestring and \<open>B3/S23\<close> parse to the same tables, Birth = {3} and
  Survive = {2, 3} with every other entry false, and no diagnostic; every rulestring
  without a \<open>B\<close>, \<open>b\<close>, \<open>S\<close> or \<open>s\<close> parses to these default tables.
\<close>

theorem parse_default_rule:
  "parse_rulestring '''' = Some (conway_tables, [])
   \<and> parse_rulestring ''B3/S23'' = Some (conway_tables, [])
   \<and> (\<forall>rule. set rule \<inter> set ''BbSs'' = {} \<longrightarrow> parse_rulestring rule = Some (conway_tables, []))"
proof (intro conjI allI impI)
  show "parse_rulestring '''' = Some (conway_tables, [])"
    by (rule parse_no_marker) simp
  show "parse_rulestring ''B3/S23'' = Some (conway_tables, [])"
    by code_simp
  show "parse_rulestring rule = Some (conway_tables, [])" if "set rule \<inter> set ''BbSs'' = {}" for rule
    using that by (rule parse_no_marker)
qed

theorem parse_default_rule_witness:
  "set ''3/23'' \<inter> set ''BbSs'' = {} \<and> parse_rulestring ''3/23'' = Some (conway_tables, [])"
  using parse_default_rule [THEN conjunct2, THEN conjunct2, THEN spec, of "''3/23''"] by simp

text \<open>
  C6. \<open>B39/S23\<close> parses to Birth = {3}, Survive = {2, 3}; the digit 9 changes no table
  entry and is named in the one diagnostic line. For every rulestring the parser returns
  (no array access of it is out of range) a well-formed table pair, and what it writes to
  the error stream is nothing when no invalid digit was scanned and otherwise the single
  line listing the distinct invalid digits in order of first appearance.
\<close>

theorem parse_invalid_digit:
  "parse_rulestring ''B39/S23'' =
     Some (conway_tables, ''Warning: digits >8 ignored in rulestring: 9'' @ [CHR 0x0A])
   \<and> (\<forall>rule. \<exists>t w. parse_rulestring rule = Some (t, w) \<and> wf_tables t \<and> w = spec_diagnostic rule)"
proof (intro conjI allI)
  show "parse_rulestring ''B39/S23'' =
     Some (conway_tables, ''Warning: digits >8 ignored in rulestring: 9'' @ [CHR 0x0A])"
    by code_simp
  show "\<exists>t w. parse_rulestring rule = Some (t, w) \<and> wf_tables t \<and> w = spec_diagnostic rule" for rule
    by (rule parse_total)
qed

text \<open>
  C7. The result of the parser depends only on the rulestring with its spaces and commas
  removed, and does not change when a lower-case marker is written in upper case; so
  \<open>b3/s23\<close>, \<open>B3 / S23\<close> and \<open>B,3/S,2,3\<close> parse as \<open>B3/S23\<close> does.
\<close>

theorem parse_tolerant:
  "parse_rulestring (strip rule) = parse_rulestring rule
   \<and> parse_rulestring (map marker_upper rule) = parse_rulestring rule
   \<and> parse_rulestring ''b3/s23'' = parse_rulestring ''B3/S23''
   \<and> parse_rulestring ''B3 / S23'' = parse_rulestring ''B3/S23''
   \<and> parse_rulestring ''B,3/S,2,3'' = parse_rulestring ''B3/S23''"
proof (intro conjI)
  show "parse_rulestring (strip rule) = parse_rulestring rule"
    by (rule parse_strip)
  show "parse_rulestring (map marker_upper rule) = parse_rulestring rule"
    by (rule parse_upper)
  have up: "map marker_upper ''b3/s23'' = ''B3/S23''"
    by (simp add: marker_upper_def)
  show "parse_rulestring ''b3/s23'' = parse_rulestring ''B3/S23''"
    using parse_upper [of "''b3/s23''"] by (simp only: up)
  have st1: "strip ''B3 / S23'' = ''B3/S23''" and st2: "strip ''B,3/S,2,3'' = ''B3/S23''"
    by (simp_all add: strip_def)
  show "parse_rulestring ''B3 / S23'' = parse_rulestring ''B3/S23''"
    using parse_strip [of "''B3 / S23''"] by (simp only: st1)
  show "parse_rulestring ''B,3/S,2,3'' = parse_rulestring ''B3/S23''"
    using parse_strip [of "''B,3/S,2,3''"] by (simp only: st2)
qed

section \<open>Properties of the grid stepper\<close>

subsection \<open>Loops\<close>

declare for_lt.simps [simp del]

lemma c_rem_nonneg: "0 \<le> a \<Longrightarrow> 0 < b \<Longrightarrow> c_rem a b = Some (a mod b)"
  by (cases "a = 0") (simp_all add: c_rem_def)

lemma for_lt_run: "for_lt i n body s = run_iterations body [i..n - 1] s"
proof (induction i n body s rule: for_lt.induct)
  case (1 i n body s)
  show ?case
  proof (cases "i < n")
    case True
    then have "[i..n - 1] = i # [i + 1..n - 1]"
      by (simp add: upto_rec1)
    with True 1 show ?thesis
      by (simp add: for_lt.simps [of i] split: option.splits)
  next
    case False
    then show ?thesis by (simp add: for_lt.simps [of i])
  qed
qed

lemma run_iterations_append:
  "run_iterations body (xs @ ys) s =
     (case run_iterations body xs s of None \<Rightarrow> None | Some s' \<Rightarrow> run_iterations body ys s')"
  by (induction xs arbitrary: s) (auto split: option.splits)

lemma run_iterations_row:
  "run_iterations (\<lambda>(y, x). body y x) (map (Pair y) xs) s = run_iterations (body y) xs s"
  by (induction xs arbitrary: s) (auto split: option.splits)

lemma run_iterations_nested:
  "run_iterations (\<lambda>y. run_iterations (body y) xs) ys s =
     run_iterations (\<lambda>(y, x). body y x) (concat (map (\<lambda>y. map (Pair y) xs) ys)) s"
  by (induction ys arbitrary: s)
     (auto simp: run_iterations_append run_iterations_row split: option.splits)

lemma for_lt_run_fun: "for_lt i n body = run_iterations body [i..n - 1]"
  by (rule ext) (rule for_lt_run)

lemma loops_cells:
  "for_lt 0 h (\<lambda>y. for_lt 0 w (\<lambda>x. body y x)) s = run_iterations (\<lambda>(y, x). body y x) (cells w h) s"
  by (simp add: for_lt_run_fun cells_def run_iterations_nested)

lemma set_cells: "set (cells w h) = {(y, x). 0 \<le> y \<and> y < h \<and> 0 \<le> x \<and> x < w}"
  by (auto simp: cells_def)

lemma upto_m1_1: "[- 1..1] = [- 1, 0, 1 :: int]"
  by (simp add: upto.simps)

lemma for_le_run_fun: "for_le i hi body = run_iterations body [i..hi]"
  by (rule ext) (simp add: for_le_def for_lt_run)

subsection \<open>Reading and writing cells\<close>

lemma cell_in:
  assumes "wf_grid w h g" "0 \<le> y" "y < h" "0 \<le> x" "x < w"
  shows "cell g y x = Some (g ! nat y ! nat x)"
proof -
  have "nat y < length g" using assms by (auto simp: wf_grid_def)
  then have "g ! nat y \<in> set g" by simp
  then have "int (length (g ! nat y)) = w" using assms by (simp add: wf_grid_def)
  then show ?thesis using assms by (simp add: cell_def at_def wf_grid_def)
qed

lemma put_in:
  assumes "wf_grid w h g" "0 \<le> y" "y < h" "0 \<le> x" "x < w"
  shows "put g y x v = Some (g[nat y := (g ! nat y)[nat x := v]])"
proof -
  have "nat y < length g" using assms by (auto simp: wf_grid_def)
  then have "g ! nat y \<in> set g" by simp
  then have "int (length (g ! nat y)) = w" using assms by (simp add: wf_grid_def)
  then show ?thesis using assms by (simp add: put_def at_def store_def wf_grid_def)
qed

lemma wf_upd:
  assumes "wf_grid w h g" "i < length g"
  shows "wf_grid w h (g[i := (g ! i)[j := v]])"
proof -
  have "g ! i \<in> set g" using assms by simp
  then have "int (length ((g ! i)[j := v])) = w" using assms by (simp add: wf_grid_def)
  moreover have "set (g[i := (g ! i)[j := v]]) \<subseteq> insert ((g ! i)[j := v]) (set g)"
    by (rule set_update_subset_insert)
  ultimately show ?thesis using assms by (auto simp: wf_grid_def)
qed

lemma cell_upd:
  assumes "wf_grid w h g" "0 \<le> y" "y < h" "0 \<le> x" "x < w"
    and "0 \<le> y'" "y' < h" "0 \<le> x'" "x' < w"
  shows "cell (g[nat y := (g ! nat y)[nat x := v]]) y' x' =
           (if y' = y \<and> x' = x then Some v else cell g y' x')"
proof -
  let ?g' = "g[nat y := (g ! nat y)[nat x := v]]"
  have len: "nat y < length g" "nat y' < length g" using assms by (auto simp: wf_grid_def)
  then have "g ! nat y \<in> set g" by simp
  then have row: "int (length (g ! nat y)) = w" using assms by (simp add: wf_grid_def)
  have wf': "wf_grid w h ?g'" using assms(1) len(1) by (rule wf_upd)
  have "cell ?g' y' x' = Some (?g' ! nat y' ! nat x')"
    using wf' assms(6-9) by (rule cell_in)
  moreover have "cell g y' x' = Some (g ! nat y' ! nat x')"
    using assms(1,6-9) by (rule cell_in)
  moreover have "?g' ! nat y' ! nat x' = (if y' = y \<and> x' = x then v else g ! nat y' ! nat x')"
    using len row assms by (auto simp: nth_list_update)
  ultimately show ?thesis by simp
qed

lemma neighbour_offsets_eq:
  "neighbour_offsets = [(- 1, - 1), (- 1, 0), (- 1, 1), (0, - 1), (0, 1), (1, - 1), (1, 0), (1, 1)]"
  by (simp add: neighbour_offsets_def)

subsection \<open>The neighbour count\<close>

lemma wrap_index_eq:
  assumes "0 \<le> i" "i < n" "n \<le> INT_MAX" "- 1 \<le> d" "d \<le> 1"
  shows "wrap_index i d n = (if i + d + n \<le> INT_MAX then Some ((i + d + n) mod n) else None)"
proof -
  have a: "int_add i d = Some (i + d)"
    using assms by (simp add: int_add_def INT_MIN_def INT_MAX_def)
  have b: "int_add (i + d) n = (if i + d + n \<le> INT_MAX then Some (i + d + n) else None)"
    using assms by (simp add: int_add_def INT_MIN_def INT_MAX_def)
  have c: "c_rem (i + d + n) n = Some ((i + d + n) mod n)"
    using assms by (intro c_rem_nonneg) auto
  show ?thesis by (simp add: wrap_index_def a b c)
qed

lemma byte_le: "uint (v :: u8) \<le> 255"
  using uint_lt2p [of v] by simp

lemma int_add_small:
  assumes "0 \<le> c" "c + 255 \<le> INT_MAX" "0 \<le> u" "u \<le> 255"
  shows "int_add c u = Some (c + u)"
  using assms by (simp add: int_add_def INT_MIN_def)

lemma neighbour_read:
  assumes "wf_grid w h g" "0 \<le> y" "y < h" "0 \<le> x" "x < w"
    and "h \<le> INT_MAX" "w \<le> INT_MAX"
    and "- 1 \<le> dy" "dy \<le> 1" "- 1 \<le> dx" "dx \<le> 1"
    and "0 \<le> cnt" "cnt + 255 \<le> INT_MAX"
  shows "(case wrap_index y dy h of None \<Rightarrow> None | Some yy \<Rightarrow>
           (case wrap_index x dx w of None \<Rightarrow> None | Some xx \<Rightarrow>
             (case cell g yy xx of None \<Rightarrow> None | Some v \<Rightarrow> int_add cnt (uint v))))
         = (if y + dy + h \<le> INT_MAX \<and> x + dx + w \<le> INT_MAX
            then Some (cnt + uint (spec_neighbour w h g y x (dy, dx))) else None)"
proof -
  have h: "0 < h" and w: "0 < w" using assms by auto
  note ry = wrap_index_eq [OF assms(2,3,6,8,9)] and rx = wrap_index_eq [OF assms(4,5,7,10,11)]
  have c: "cell g ((y + dy + h) mod h) ((x + dx + w) mod w)
        = Some (g ! nat ((y + dy + h) mod h) ! nat ((x + dx + w) mod w))"
    using assms(1) pos_mod_sign [OF h] pos_mod_bound [OF h] pos_mod_sign [OF w] pos_mod_bound [OF w]
    by (rule cell_in)
  have s: "int_add cnt (uint v) = Some (cnt + uint v)" for v :: u8
    using assms(12,13) _ byte_le [of v] by (rule int_add_small) simp
  show ?thesis
  proof (cases "y + dy + h \<le> INT_MAX \<and> x + dx + w \<le> INT_MAX")
    case True
    then have t: "y + dy + h \<le> INT_MAX" "x + dx + w \<le> INT_MAX" by simp_all
    show ?thesis
      by (simp only: ry rx t c s spec_neighbour_def if_True option.case fst_conv snd_conv simp_thms)
  next
    case nf: False
    show ?thesis
    proof (cases "y + dy + h \<le> INT_MAX")
      case True
      with nf have fx: "\<not> x + dx + w \<le> INT_MAX" by simp
      show ?thesis
        by (simp only: ry rx True fx if_True if_False option.case simp_thms)
    next
      case False
      show ?thesis
        by (simp only: ry False if_False option.case simp_thms)
    qed
  qed
qed

lemma run_sum:
  assumes step: "\<And>d c. d \<in> set ds \<Longrightarrow> 0 \<le> c \<Longrightarrow> c + 255 \<le> INT_MAX \<Longrightarrow>
                   F d c = (if ok d then Some (c + val d) else None)"
    and val: "\<And>d. d \<in> set ds \<Longrightarrow> 0 \<le> val d \<and> val d \<le> 255"
    and c: "0 \<le> c" "c + 255 * int (length ds) \<le> INT_MAX"
  shows "run_iterations F ds c =
           (if \<forall>d \<in> set ds. ok d then Some (c + sum_list (map val ds)) else None)"
  using assms
proof (induction ds arbitrary: c)
  case Nil
  then show ?case by simp
next
  case (Cons d ds)
  have v: "0 \<le> val d" "val d \<le> 255" using Cons.prems(2) [of d] by simp_all
  have fd: "F d c = (if ok d then Some (c + val d) else None)"
    using Cons.prems(3,4) by (intro Cons.prems(1)) simp_all
  show ?case
  proof (cases "ok d")
    case False
    then show ?thesis by (simp add: fd)
  next
    case True
    have "run_iterations F ds (c + val d) =
            (if \<forall>e \<in> set ds. ok e then Some (c + val d + sum_list (map val ds)) else None)"
    proof (rule Cons.IH)
      show "F e c' = (if ok e then Some (c' + val e) else None)"
        if "e \<in> set ds" "0 \<le> c'" "c' + 255 \<le> INT_MAX" for e c'
        using that by (intro Cons.prems(1)) simp_all
      show "0 \<le> val e \<and> val e \<le> 255" if "e \<in> set ds" for e
        using that by (intro Cons.prems(2)) simp
      show "0 \<le> c + val d" using Cons.prems(3) v by simp
      show "c + val d + 255 * int (length ds) \<le> INT_MAX" using Cons.prems(4) v by simp
    qed
    with True show ?thesis by (simp add: fd add.assoc)
  qed
qed

lemma neighbor_count_eq:
  assumes "wf_grid w h g" "0 \<le> y" "y < h" "0 \<le> x" "x < w" "h \<le> INT_MAX" "w \<le> INT_MAX"
  shows "neighbor_count w h g y x =
           (if y + 1 + h \<le> INT_MAX \<and> x + 1 + w \<le> INT_MAX then Some (spec_count w h g y x) else None)"
proof -
  let ?F = "\<lambda>(dy, dx) cnt.
         if dy \<noteq> 0 \<or> dx \<noteq> 0
         then (case wrap_index y dy h of None \<Rightarrow> None | Some yy \<Rightarrow>
               (case wrap_index x dx w of None \<Rightarrow> None | Some xx \<Rightarrow>
               (case cell g yy xx of None \<Rightarrow> None | Some v \<Rightarrow> int_add cnt (uint v))))
         else Some cnt"
  let ?val = "\<lambda>d. if fst d \<noteq> 0 \<or> snd d \<noteq> 0 then uint (spec_neighbour w h g y x d) else 0"
  let ?ok = "\<lambda>d. (fst d \<noteq> 0 \<or> snd d \<noteq> 0) \<longrightarrow> y + fst d + h \<le> INT_MAX \<and> x + snd d + w \<le> INT_MAX"
  let ?ds = "concat (map (\<lambda>dy. map (Pair dy) [- 1, 0, 1 :: int]) [- 1, 0, 1 :: int])"
  have run: "neighbor_count w h g y x = run_iterations ?F ?ds 0"
    by (simp only: neighbor_count_def for_le_run_fun upto_m1_1 run_iterations_nested)
  have "run_iterations ?F ?ds 0 = (if \<forall>d \<in> set ?ds. ?ok d then Some (0 + sum_list (map ?val ?ds)) else None)"
  proof (rule run_sum)
    fix d c assume d: "d \<in> set ?ds" and c: "0 \<le> c" "c + 255 \<le> INT_MAX"
    obtain dy dx where dd: "d = (dy, dx)" by (cases d)
    have r: "- 1 \<le> dy" "dy \<le> 1" "- 1 \<le> dx" "dx \<le> 1" using d by (auto simp: dd)
    from neighbour_read [OF assms r c] show "?F d c = (if ?ok d then Some (c + ?val d) else None)"
      by (simp add: dd)
  next
    fix d assume "d \<in> set ?ds"
    show "0 \<le> ?val d \<and> ?val d \<le> 255" using byte_le [of "spec_neighbour w h g y x d"] by simp
  next
    show "(0::int) \<le> 0" by simp
    show "0 + 255 * int (length ?ds) \<le> INT_MAX" by (simp add: INT_MAX_def)
  qed
  moreover have "sum_list (map ?val ?ds) = spec_count w h g y x"
    by (simp add: spec_count_def neighbour_offsets_eq)
  moreover have "(\<forall>d \<in> set ?ds. ?ok d) \<longleftrightarrow> (y + 1 + h \<le> INT_MAX \<and> x + 1 + w \<le> INT_MAX)"
    using assms(2-7) by auto
  ultimately show ?thesis using run by simp
qed

lemma dims_fit_cell:
  assumes "dims_fit w h" "y < h" "x < w"
  shows "y + 1 + h \<le> INT_MAX \<and> x + 1 + w \<le> INT_MAX" "h \<le> INT_MAX" "w \<le> INT_MAX"
  using assms by (auto simp: dims_fit_def)

lemma neighbor_count_spec:
  assumes "wf_grid w h g" "dims_fit w h" "0 \<le> y" "y < h" "0 \<le> x" "x < w"
  shows "neighbor_count w h g y x = Some (spec_count w h g y x)"
  using neighbor_count_eq [OF assms(1,3-6) dims_fit_cell(2,3) [OF assms(2,4,6)]]
    dims_fit_cell(1) [OF assms(2,4,6)]
  by simp

lemma spec_neighbour_bit:
  assumes "wf_grid w h g" "bit_valued g" "0 < h" "0 < w"
  shows "spec_neighbour w h g y x d = 0 \<or> spec_neighbour w h g y x d = 1"
proof -
  let ?i = "nat ((y + fst d + h) mod h)" and ?j = "nat ((x + snd d + w) mod w)"
  have "?i < length g"
    using assms(1) pos_mod_sign [OF assms(3)] pos_mod_bound [OF assms(3), of "y + fst d + h"]
    by (simp add: wf_grid_def nat_less_iff)
  then have row: "g ! ?i \<in> set g" by simp
  then have "int (length (g ! ?i)) = w" using assms(1) by (simp add: wf_grid_def)
  then have "?j < length (g ! ?i)"
    using pos_mod_sign [OF assms(4)] pos_mod_bound [OF assms(4), of "x + snd d + w"]
    by (simp add: nat_less_iff)
  then have "g ! ?i ! ?j \<in> set (g ! ?i)" by simp
  with row assms(2) show ?thesis
    unfolding bit_valued_def spec_neighbour_def by blast
qed

lemma sum_list_bits:
  assumes "\<forall>d \<in> set ds. f d = 0 \<or> f d = (1 :: u8)"
  shows "(\<Sum>d \<leftarrow> ds. uint (f d)) = int (length (filter (\<lambda>d. f d \<noteq> 0) ds))"
  using assms by (induction ds) auto

lemma spec_count_live:
  assumes "wf_grid w h g" "bit_valued g" "0 < h" "0 < w"
  shows "spec_count w h g y x =
           int (length (filter (\<lambda>d. spec_neighbour w h g y x d \<noteq> 0) neighbour_offsets))"
  unfolding spec_count_def
  by (rule sum_list_bits) (simp add: spec_neighbour_bit [OF assms])

lemma length_neighbour_offsets: "length neighbour_offsets = 8"
  by (simp add: neighbour_offsets_eq)

lemma spec_count_bounds:
  assumes "wf_grid w h g" "bit_valued g" "0 < h" "0 < w"
  shows "0 \<le> spec_count w h g y x" "spec_count w h g y x \<le> 8"
proof -
  have "length (filter (\<lambda>d. spec_neighbour w h g y x d \<noteq> 0) neighbour_offsets) \<le> 8"
    using length_filter_le [of _ neighbour_offsets] by (simp only: length_neighbour_offsets)
  then show "0 \<le> spec_count w h g y x" "spec_count w h g y x \<le> 8"
    by (simp_all add: spec_count_live [OF assms])
qed

lemma spec_count_nonneg: "0 \<le> spec_count w h g y x"
  unfolding spec_count_def by (rule sum_list_nonneg) auto

subsection \<open>One iteration, one pass, one step\<close>

lemma rule_cell_eq:
  assumes "wf_grid w h cur" "wf_grid w h nxt" "0 \<le> y" "y < h" "0 \<le> x" "x < w"
    and "h \<le> INT_MAX" "w \<le> INT_MAX" "length tB = 9" "length tS = 9"
  shows "rule_cell tB tS w h y x (cur, nxt) =
           (if (y + 1 + h \<le> INT_MAX \<and> x + 1 + w \<le> INT_MAX) \<and> spec_count w h cur y x \<le> 8
            then Some (cur, nxt[nat y := (nxt ! nat y)[nat x := spec_next tB tS w h cur y x]])
            else None)"
proof -
  let ?n = "spec_count w h cur y x"
  note n = neighbor_count_eq [OF assms(1,3-8)]
  have c: "cell cur y x = Some (cur ! nat y ! nat x)"
    using assms(1,3-6) by (rule cell_in)
  have p: "put nxt y x v = Some (nxt[nat y := (nxt ! nat y)[nat x := v]])" for v
    using assms(2-6) by (rule put_in)
  show ?thesis
  proof (cases "y + 1 + h \<le> INT_MAX \<and> x + 1 + w \<le> INT_MAX")
    case False
    have nn: "neighbor_count w h cur y x = None"
      by (simp only: n False if_False)
    have "rule_cell tB tS w h y x (cur, nxt) = None"
      by (simp add: rule_cell_def nn)
    then show ?thesis by (simp only: False simp_thms if_False)
  next
    case fit: True
    show ?thesis
    proof (cases "?n \<le> 8")
      case True
      have tb: "at tB ?n = Some (tB ! nat ?n)" and ts: "at tS ?n = Some (tS ! nat ?n)"
        using assms(9,10) True spec_count_nonneg [of w h cur y x] by (simp_all add: at_def)
      have sc: "or_sc (and_sc (Some (\<not> a)) (truth (at tB ?n))) (and_sc (Some a) (truth (at tS ?n)))
                  = Some (spec_nextAlive tB tS a ?n)" for a
        by (cases a; cases "tB ! nat ?n = 0"; cases "tS ! nat ?n = 0")
           (simp_all add: tb ts truth_def and_sc_def or_sc_def spec_nextAlive_def)
      show ?thesis
        using fit True by (simp add: rule_cell_def n c sc p Let_def spec_next_def spec_alive_def)
    next
      case False
      then have tb: "at tB ?n = None" and ts: "at tS ?n = None"
        using assms(9,10) by (simp_all add: at_def)
      have sc: "or_sc (and_sc (Some (\<not> a)) (truth (at tB ?n))) (and_sc (Some a) (truth (at tS ?n))) = None" for a
        by (cases a) (simp_all add: tb ts truth_def and_sc_def or_sc_def)
      show ?thesis
        using fit False by (simp add: rule_cell_def n c sc Let_def)
    qed
  qed
qed

lemma life_cell_eq:
  assumes "wf_grid w h cur" "wf_grid w h nxt" "0 \<le> y" "y < h" "0 \<le> x" "x < w"
    and "h \<le> INT_MAX" "w \<le> INT_MAX"
  shows "life_cell w h y x (cur, nxt) =
           (if y + 1 + h \<le> INT_MAX \<and> x + 1 + w \<le> INT_MAX
            then Some (cur, nxt[nat y := (nxt ! nat y)[nat x := spec_conway w h cur y x]])
            else None)"
proof -
  note n = neighbor_count_eq [OF assms(1,3-8)]
  have c: "cell cur y x = Some (cur ! nat y ! nat x)"
    using assms(1,3-6) by (rule cell_in)
  have p: "put nxt y x v = Some (nxt[nat y := (nxt ! nat y)[nat x := v]])" for v
    using assms(2-6) by (rule put_in)
  show ?thesis
    by (auto simp add: life_cell_def n c p truth_def and_sc_def or_sc_def Let_def
        spec_conway_def spec_alive_def)
qed

lemma run_writes:
  assumes body: "\<And>y x nxt. (y, x) \<in> set order \<Longrightarrow> wf_grid w h nxt \<Longrightarrow>
       body (y, x) (cur, nxt) = Some (cur, nxt[nat y := (nxt ! nat y)[nat x := f y x]])"
    and inr: "set order \<subseteq> set (cells w h)"
    and wf: "wf_grid w h nxt"
  shows "\<exists>nxt'. run_iterations body order (cur, nxt) = Some (cur, nxt') \<and> wf_grid w h nxt' \<and>
           (\<forall>y x. 0 \<le> y \<longrightarrow> y < h \<longrightarrow> 0 \<le> x \<longrightarrow> x < w \<longrightarrow>
              cell nxt' y x = (if (y, x) \<in> set order then Some (f y x) else cell nxt y x))"
  using assms
proof (induction order arbitrary: nxt)
  case Nil
  then show ?case by simp
next
  case (Cons i order)
  obtain yi xi where i: "i = (yi, xi)" by (cases i)
  have ri: "0 \<le> yi" "yi < h" "0 \<le> xi" "xi < w"
    using Cons.prems(2) by (auto simp: i set_cells)
  let ?n1 = "nxt[nat yi := (nxt ! nat yi)[nat xi := f yi xi]]"
  have step: "body i (cur, nxt) = Some (cur, ?n1)"
    using Cons.prems(1) [of yi xi nxt] Cons.prems(3) by (simp add: i)
  have "nat yi < length nxt" using ri Cons.prems(3) by (auto simp: wf_grid_def)
  with Cons.prems(3) have wf1: "wf_grid w h ?n1" by (rule wf_upd)
  have "\<exists>nxt'. run_iterations body order (cur, ?n1) = Some (cur, nxt') \<and> wf_grid w h nxt' \<and>
           (\<forall>y x. 0 \<le> y \<longrightarrow> y < h \<longrightarrow> 0 \<le> x \<longrightarrow> x < w \<longrightarrow>
              cell nxt' y x = (if (y, x) \<in> set order then Some (f y x) else cell ?n1 y x))"
  proof (rule Cons.IH)
    show "body (y, x) (cur, n) = Some (cur, n[nat y := (n ! nat y)[nat x := f y x]])"
      if "(y, x) \<in> set order" "wf_grid w h n" for y x n
      using that Cons.prems(1) [of y x n] by simp
    show "set order \<subseteq> set (cells w h)" using Cons.prems(2) by simp
    show "wf_grid w h ?n1" by (rule wf1)
  qed
  then obtain nxt' where r: "run_iterations body order (cur, ?n1) = Some (cur, nxt')"
    "wf_grid w h nxt'"
    "\<And>y x. 0 \<le> y \<Longrightarrow> y < h \<Longrightarrow> 0 \<le> x \<Longrightarrow> x < w \<Longrightarrow>
        cell nxt' y x = (if (y, x) \<in> set order then Some (f y x) else cell ?n1 y x)"
    by blast
  have "cell nxt' y x = (if (y, x) \<in> set (i # order) then Some (f y x) else cell nxt y x)"
    if "0 \<le> y" "y < h" "0 \<le> x" "x < w" for y x
    using r(3) [OF that] cell_upd [OF Cons.prems(3) ri that, of "f yi xi"] by (auto simp: i)
  with r(1,2) step show ?case by simp
qed

lemma run_fails:
  assumes body: "\<And>y x nxt. (y, x) \<in> set order \<Longrightarrow> wf_grid w h nxt \<Longrightarrow>
       body (y, x) (cur, nxt) =
         (if good y x then Some (cur, nxt[nat y := (nxt ! nat y)[nat x := f y x]]) else None)"
    and inr: "set order \<subseteq> set (cells w h)"
    and wf: "wf_grid w h nxt"
    and bad: "\<exists>(y, x) \<in> set order. \<not> good y x"
  shows "run_iterations body order (cur, nxt) = None"
  using assms
proof (induction order arbitrary: nxt)
  case Nil
  then show ?case by simp
next
  case (Cons i order)
  obtain yi xi where i: "i = (yi, xi)" by (cases i)
  have ri: "0 \<le> yi" "yi < h" "0 \<le> xi" "xi < w"
    using Cons.prems(2) by (auto simp: i set_cells)
  let ?n1 = "nxt[nat yi := (nxt ! nat yi)[nat xi := f yi xi]]"
  have step: "body i (cur, nxt) = (if good yi xi then Some (cur, ?n1) else None)"
    using Cons.prems(1) [of yi xi nxt] Cons.prems(3) by (simp add: i)
  show ?case
  proof (cases "good yi xi")
    case False
    then show ?thesis by (simp add: step)
  next
    case True
    have "nat yi < length nxt" using ri Cons.prems(3) by (auto simp: wf_grid_def)
    with Cons.prems(3) have wf1: "wf_grid w h ?n1" by (rule wf_upd)
    have "run_iterations body order (cur, ?n1) = None"
    proof (rule Cons.IH)
      show "body (y, x) (cur, n) =
              (if good y x then Some (cur, n[nat y := (n ! nat y)[nat x := f y x]]) else None)"
        if "(y, x) \<in> set order" "wf_grid w h n" for y x n
        using that Cons.prems(1) [of y x n] by simp
      show "set order \<subseteq> set (cells w h)" using Cons.prems(2) by simp
      show "wf_grid w h ?n1" by (rule wf1)
      show "\<exists>(y, x) \<in> set order. \<not> good y x" using Cons.prems(4) True by (auto simp: i)
    qed
    with True show ?thesis by (simp add: step)
  qed
qed

lemma cell_grid_of:
  assumes "0 \<le> y" "y < h" "0 \<le> x" "x < w"
  shows "cell (grid_of w h f) y x = Some (f y x)"
  using assms by (simp add: cell_def at_def grid_of_def)

lemma wf_grid_of: "0 \<le> w \<Longrightarrow> 0 \<le> h \<Longrightarrow> wf_grid w h (grid_of w h f)"
  by (auto simp: wf_grid_def grid_of_def)

lemma grid_ext:
  assumes "wf_grid w h g" "wf_grid w h g'"
    and "\<And>y x. 0 \<le> y \<Longrightarrow> y < h \<Longrightarrow> 0 \<le> x \<Longrightarrow> x < w \<Longrightarrow> cell g y x = cell g' y x"
  shows "g = g'"
proof (rule nth_equalityI)
  show len: "length g = length g'" using assms(1,2) by (simp add: wf_grid_def)
  fix i assume i: "i < length g"
  then have "g ! i \<in> set g" "g' ! i \<in> set g'" using len by simp_all
  then have rl: "int (length (g ! i)) = w" "int (length (g' ! i)) = w"
    using assms(1,2) by (simp_all add: wf_grid_def)
  show "g ! i = g' ! i"
  proof (rule nth_equalityI)
    show "length (g ! i) = length (g' ! i)" using rl by simp
    fix j assume j: "j < length (g ! i)"
    have r: "0 \<le> int i" "int i < h" "0 \<le> int j" "int j < w"
      using i j rl assms(1) by (auto simp: wf_grid_def)
    from assms(3) [OF r] cell_in [OF assms(1) r] cell_in [OF assms(2) r]
    show "g ! i ! j = g' ! i ! j" by simp
  qed
qed

lemma pass_result:
  assumes body: "\<And>y x nxt. (y, x) \<in> set order \<Longrightarrow> wf_grid w h nxt \<Longrightarrow>
       body (y, x) (cur, nxt) =
         (if good y x then Some (cur, nxt[nat y := (nxt ! nat y)[nat x := f y x]]) else None)"
    and cover: "set order = set (cells w h)"
    and wf: "wf_grid w h nxt"
  shows "run_iterations body order (cur, nxt) =
           (if \<forall>(y, x) \<in> set (cells w h). good y x then Some (cur, grid_of w h f) else None)"
proof (cases "\<forall>(y, x) \<in> set (cells w h). good y x")
  case False
  then have "\<exists>(y, x) \<in> set order. \<not> good y x" by (auto simp: cover)
  moreover have "set order \<subseteq> set (cells w h)" using cover by auto
  ultimately have "run_iterations body order (cur, nxt) = None"
    using body wf by (intro run_fails [where good = good and f = f and w = w and h = h]) auto
  with False show ?thesis by simp
next
  case True
  have ok: "body (y, x) (cur, n) = Some (cur, n[nat y := (n ! nat y)[nat x := f y x]])"
    if "(y, x) \<in> set order" "wf_grid w h n" for y x n
    using body [OF that] that(1) True by (auto simp: cover)
  from run_writes [of order w h body cur f nxt] ok cover wf
  obtain nxt' where r: "run_iterations body order (cur, nxt) = Some (cur, nxt')" "wf_grid w h nxt'"
    "\<And>y x. 0 \<le> y \<Longrightarrow> y < h \<Longrightarrow> 0 \<le> x \<Longrightarrow> x < w \<Longrightarrow>
        cell nxt' y x = (if (y, x) \<in> set order then Some (f y x) else cell nxt y x)"
    by (auto simp: subset_iff)
  have dims: "0 \<le> w \<or> h = 0" "0 \<le> h"
    using wf by (cases nxt; auto simp: wf_grid_def)+
  have wfg: "wf_grid w h (grid_of w h f)"
    using dims by (auto simp: wf_grid_def grid_of_def)
  have "nxt' = grid_of w h f"
  proof (rule grid_ext [OF r(2) wfg])
    fix y x assume yx: "0 \<le> y" "y < h" "0 \<le> x" "x < w"
    then have "(y, x) \<in> set order" by (simp add: cover set_cells)
    with r(3) [OF yx] cell_grid_of [OF yx] show "cell nxt' y x = cell (grid_of w h f) y x"
      by simp
  qed
  with r(1) True show ?thesis by simp
qed

lemma cells_fit:
  assumes "0 < w" "0 < h"
  shows "(\<forall>(y, x) \<in> set (cells w h). y + 1 + h \<le> INT_MAX \<and> x + 1 + w \<le> INT_MAX)
           \<longleftrightarrow> dims_fit w h"
proof
  assume a: "\<forall>(y, x) \<in> set (cells w h). y + 1 + h \<le> INT_MAX \<and> x + 1 + w \<le> INT_MAX"
  have "(h - 1, w - 1) \<in> set (cells w h)" using assms by (simp add: set_cells)
  with a have "h - 1 + 1 + h \<le> INT_MAX \<and> w - 1 + 1 + w \<le> INT_MAX" by blast
  then show "dims_fit w h" using assms by (simp add: dims_fit_def)
next
  assume "dims_fit w h"
  then show "\<forall>(y, x) \<in> set (cells w h). y + 1 + h \<le> INT_MAX \<and> x + 1 + w \<le> INT_MAX"
    by (auto simp: set_cells dims_fit_def)
qed

lemma bit_valued_counts:
  assumes "wf_grid w h g" "bit_valued g"
  shows "counts_in_table w h g"
  unfolding counts_in_table_def
proof (clarify)
  fix y x assume "(y, x) \<in> set (cells w h)"
  then have "0 < h" "0 < w" by (auto simp: set_cells)
  with assms show "spec_count w h g y x \<le> 8" by (intro spec_count_bounds)
qed

lemma rule_pass:
  assumes "wf_grid w h cur" "wf_grid w h nxt" "0 < w" "0 < h" "w \<le> INT_MAX" "h \<le> INT_MAX"
    and "length tB = 9" "length tS = 9" "set order = set (cells w h)"
  shows "run_iterations (\<lambda>(y, x). rule_cell tB tS w h y x) order (cur, nxt)
           = (if dims_fit w h \<and> counts_in_table w h cur
              then Some (cur, grid_of w h (spec_next tB tS w h cur)) else None)"
proof -
  let ?good = "\<lambda>y x. (y + 1 + h \<le> INT_MAX \<and> x + 1 + w \<le> INT_MAX) \<and> spec_count w h cur y x \<le> 8"
  have "run_iterations (\<lambda>(y, x). rule_cell tB tS w h y x) order (cur, nxt)
          = (if \<forall>(y, x) \<in> set (cells w h). ?good y x
             then Some (cur, grid_of w h (spec_next tB tS w h cur)) else None)"
  proof (rule pass_result [OF _ assms(9) assms(2)])
    fix y x n assume yx: "(y, x) \<in> set order" and n: "wf_grid w h n"
    then have r: "0 \<le> y" "y < h" "0 \<le> x" "x < w"
      using assms(9) by (auto simp: set_cells)
    from rule_cell_eq [OF assms(1) n r assms(6,5,7,8)]
    show "(case (y, x) of (y, x) \<Rightarrow> rule_cell tB tS w h y x) (cur, n)
          = (if ?good y x
             then Some (cur, n[nat y := (n ! nat y)[nat x := spec_next tB tS w h cur y x]])
             else None)"
      by simp
  qed
  moreover have "(\<forall>(y, x) \<in> set (cells w h). ?good y x) \<longleftrightarrow> dims_fit w h \<and> counts_in_table w h cur"
    using cells_fit [OF assms(3,4)] by (auto simp: counts_in_table_def)
  ultimately show ?thesis by simp
qed

lemma life_pass:
  assumes "wf_grid w h cur" "wf_grid w h nxt" "0 < w" "0 < h" "w \<le> INT_MAX" "h \<le> INT_MAX"
    and "set order = set (cells w h)"
  shows "run_iterations (\<lambda>(y, x). life_cell w h y x) order (cur, nxt)
           = (if dims_fit w h then Some (cur, grid_of w h (spec_conway w h cur)) else None)"
proof -
  let ?good = "\<lambda>y x. y + 1 + h \<le> INT_MAX \<and> x + 1 + w \<le> INT_MAX"
  have "run_iterations (\<lambda>(y, x). life_cell w h y x) order (cur, nxt)
          = (if \<forall>(y, x) \<in> set (cells w h). ?good y x
             then Some (cur, grid_of w h (spec_conway w h cur)) else None)"
  proof (rule pass_result [OF _ assms(7) assms(2)])
    fix y x n assume yx: "(y, x) \<in> set order" and n: "wf_grid w h n"
    then have r: "0 \<le> y" "y < h" "0 \<le> x" "x < w"
      using assms(7) by (auto simp: set_cells)
    from life_cell_eq [OF assms(1) n r assms(6,5)]
    show "(case (y, x) of (y, x) \<Rightarrow> life_cell w h y x) (cur, n)
          = (if ?good y x
             then Some (cur, n[nat y := (n ! nat y)[nat x := spec_conway w h cur y x]])
             else None)"
      by simp
  qed
  then show ?thesis by (simp only: cells_fit [OF assms(3,4)])
qed

text \<open>
  What the three kernels do on well-formed grids of positive dimensions: they return the
  specified generation when the index arithmetic fits \<^verbatim>\<open>int\<close> (and, for the tables, no
  neighbour sum exceeds 8), and are undefined otherwise.
\<close>

lemma step_rule_eq:
  assumes "wf_grid w h cur" "wf_grid w h nxt" "0 < w" "0 < h" "w \<le> INT_MAX" "h \<le> INT_MAX"
    and "length tB = 9" "length tS = 9"
  shows "step_rule tB tS w h (cur, nxt) =
           (if dims_fit w h \<and> counts_in_table w h cur
            then Some (grid_of w h (spec_next tB tS w h cur), cur) else None)"
  by (simp add: step_rule_def loops_cells rule_pass [OF assms refl] swap_bufs_def)

lemma step_rule_omp_eq:
  assumes "wf_grid w h cur" "wf_grid w h nxt" "0 < w" "0 < h" "w \<le> INT_MAX" "h \<le> INT_MAX"
    and "length tB = 9" "length tS = 9" "schedule w h order"
  shows "step_rule_omp order tB tS w h (cur, nxt) =
           (if dims_fit w h \<and> counts_in_table w h cur
            then Some (grid_of w h (spec_next tB tS w h cur), cur) else None)"
proof -
  have "set order = set (cells w h)" using assms(9) by (simp add: schedule_def)
  from rule_pass [OF assms(1-8) this] show ?thesis
    by (simp add: step_rule_omp_def swap_bufs_def)
qed

lemma step_life_eq:
  assumes "wf_grid w h cur" "wf_grid w h nxt" "0 < w" "0 < h" "w \<le> INT_MAX" "h \<le> INT_MAX"
  shows "step_life w h (cur, nxt) =
           (if dims_fit w h then Some (grid_of w h (spec_conway w h cur), cur) else None)"
  by (simp add: step_life_def loops_cells life_pass [OF assms refl] swap_bufs_def)

lemma dims_fit_range: "dims_fit w h \<Longrightarrow> 0 < w \<and> 0 < h \<and> w \<le> INT_MAX \<and> h \<le> INT_MAX"
  by (auto simp: dims_fit_def)

lemma step_rule_result:
  assumes "wf_grid w h cur" "wf_grid w h nxt" "dims_fit w h" "counts_in_table w h cur"
    and "length tB = 9" "length tS = 9"
  shows "step_rule tB tS w h (cur, nxt) = Some (grid_of w h (spec_next tB tS w h cur), cur)"
  using dims_fit_range [OF assms(3)] assms step_rule_eq [of w h cur nxt tB tS] by simp

lemma step_rule_omp_result:
  assumes "wf_grid w h cur" "wf_grid w h nxt" "dims_fit w h" "counts_in_table w h cur"
    and "length tB = 9" "length tS = 9" "schedule w h order"
  shows "step_rule_omp order tB tS w h (cur, nxt) = Some (grid_of w h (spec_next tB tS w h cur), cur)"
  using dims_fit_range [OF assms(3)] assms step_rule_omp_eq [of w h cur nxt tB tS order] by simp

lemma step_life_result:
  assumes "wf_grid w h cur" "wf_grid w h nxt" "dims_fit w h"
  shows "step_life w h (cur, nxt) = Some (grid_of w h (spec_conway w h cur), cur)"
  using dims_fit_range [OF assms(3)] assms step_life_eq [of w h cur nxt] by simp

subsection \<open>The Conway kernel and the default tables\<close>

lemma conway_table_B:
  assumes "0 \<le> n" "n \<le> 8"
  shows "(B conway_tables ! nat n \<noteq> 0) = (n = 3)"
proof -
  have "n \<in> {0, 1, 2, 3, 4, 5, 6, 7, 8}" using assms by auto
  then show ?thesis by (auto simp: conway_tables_def)
qed

lemma conway_table_S:
  assumes "0 \<le> n" "n \<le> 8"
  shows "(S conway_tables ! nat n \<noteq> 0) = (n = 2 \<or> n = 3)"
proof -
  have "n \<in> {0, 1, 2, 3, 4, 5, 6, 7, 8}" using assms by auto
  then show ?thesis by (auto simp: conway_tables_def)
qed

lemma spec_next_conway:
  assumes "spec_count w h g y x \<le> 8"
  shows "spec_next (B conway_tables) (S conway_tables) w h g y x = spec_conway w h g y x"
  using conway_table_B [OF spec_count_nonneg assms] conway_table_S [OF spec_count_nonneg assms]
  by (simp add: spec_next_def spec_nextAlive_def spec_conway_def Let_def)

lemma grid_of_cong:
  assumes "\<And>y x. 0 \<le> y \<Longrightarrow> y < h \<Longrightarrow> 0 \<le> x \<Longrightarrow> x < w \<Longrightarrow> f y x = f' y x"
  shows "grid_of w h f = grid_of w h f'"
  using assms by (simp add: grid_of_def)

lemma step_life_rule:
  assumes "wf_grid w h cur" "wf_grid w h nxt" "0 < w" "0 < h" "w \<le> INT_MAX" "h \<le> INT_MAX"
    and "counts_in_table w h cur"
  shows "step_rule (B conway_tables) (S conway_tables) w h (cur, nxt) = step_life w h (cur, nxt)"
proof -
  have "grid_of w h (spec_next (B conway_tables) (S conway_tables) w h cur) = grid_of w h (spec_conway w h cur)"
  proof (rule grid_of_cong)
    fix y x assume "0 \<le> y" "y < h" "0 \<le> x" "x < w"
    then have "spec_count w h cur y x \<le> 8"
      using assms(7) by (auto simp: counts_in_table_def set_cells)
    then show "spec_next (B conway_tables) (S conway_tables) w h cur y x = spec_conway w h cur y x"
      by (rule spec_next_conway)
  qed
  moreover have "length (B conway_tables) = 9" "length (S conway_tables) = 9"
    by (simp_all add: conway_tables_def)
  ultimately show ?thesis
    using step_rule_eq [OF assms(1-6), of "B conway_tables" "S conway_tables"]
      step_life_eq [OF assms(1-6)] assms(7)
    by simp
qed

lemma distinct_cells:
  assumes "0 < w"
  shows "distinct (cells w h)"
  unfolding cells_def
proof (rule distinct_concat)
  have "inj_on (\<lambda>y. map (Pair y) [0..w - 1]) (set [0..h - 1])"
  proof (rule inj_onI)
    fix y y' :: int assume "map (Pair y) [0..w - 1] = map (Pair y') [0..w - 1]"
    moreover have "[0..w - 1] = 0 # [0 + 1..w - 1]" using assms by (intro upto_rec1) simp
    ultimately show "y = y'" by simp
  qed
  then show "distinct (map (\<lambda>y. map (Pair y) [0..w - 1]) [0..h - 1])"
    by (simp add: distinct_map)
  show "distinct ys" if "ys \<in> set (map (\<lambda>y. map (Pair y) [0..w - 1]) [0..h - 1])" for ys
    using that by (auto simp: distinct_map inj_on_def)
  show "set ys \<inter> set zs = {}"
    if "ys \<in> set (map (\<lambda>y. map (Pair y) [0..w - 1]) [0..h - 1])"
       "zs \<in> set (map (\<lambda>y. map (Pair y) [0..w - 1]) [0..h - 1])" "ys \<noteq> zs" for ys zs
    using that by auto
qed

lemma row_major_schedule: "0 < w \<Longrightarrow> schedule w h (cells w h)"
  by (simp add: schedule_def distinct_cells)

subsection \<open>A grid too wide for the index arithmetic\<close>

text \<open>One row of \<open>2^30 = 1073741824\<close> cells: for its last column
  \<^verbatim>\<open>x + dx + gWidth\<close> is \<open>2^31\<close> at \<open>dx = 1\<close>.\<close>

lemma wide_wf: "wf_grid 1073741824 1 [replicate 1073741824 v]"
  by (simp add: wf_grid_def)

lemma wide_bits: "bit_valued [replicate 1073741824 0]" "bit_valued [replicate 1073741824 1]"
  by (simp_all add: bit_valued_def)

lemma wide_range: "(0::int) < 1073741824" "(0::int) < 1" "1073741824 \<le> INT_MAX" "1 \<le> INT_MAX"
  by (simp_all add: INT_MAX_def)

lemma wide_unfit: "\<not> dims_fit 1073741824 h"
  by (simp add: dims_fit_def INT_MAX_def)

lemma wide_life: "step_life 1073741824 1 ([replicate 1073741824 v], [replicate 1073741824 v']) = None"
  using step_life_eq [OF wide_wf wide_wf wide_range] wide_unfit by simp

lemma wide_rule:
  assumes "length tB = 9" "length tS = 9"
  shows "step_rule tB tS 1073741824 1 ([replicate 1073741824 v], [replicate 1073741824 v']) = None"
  using step_rule_eq [OF wide_wf wide_wf wide_range assms] wide_unfit by simp

lemma wide_count: "neighbor_count 1073741824 1 [replicate 1073741824 v] 0 1073741823 = None"
proof -
  have "neighbor_count 1073741824 1 [replicate 1073741824 v] 0 1073741823 =
          (if (0::int) + 1 + 1 \<le> INT_MAX \<and> (1073741823::int) + 1 + 1073741824 \<le> INT_MAX
           then Some (spec_count 1073741824 1 [replicate 1073741824 v] 0 1073741823) else None)"
    using wide_wf by (rule neighbor_count_eq) (simp_all add: INT_MAX_def)
  then show ?thesis by (simp add: INT_MAX_def)
qed

lemma bit_valued_grid_of:
  assumes "\<And>y x. f y x = 0 \<or> f y x = 1"
  shows "bit_valued (grid_of w h f)"
  using assms by (auto simp: bit_valued_def grid_of_def)

lemma wf_grid_of_like:
  assumes "wf_grid w h g"
  shows "wf_grid w h (grid_of w h f)"
proof -
  have "0 \<le> w \<or> h = 0" "0 \<le> h"
    using assms by (cases g; auto simp: wf_grid_def)+
  then show ?thesis by (auto simp: wf_grid_def grid_of_def)
qed

lemma spec_next_bit: "spec_next tB tS w h g y x = 0 \<or> spec_next tB tS w h g y x = 1"
  by (simp add: spec_next_def)

lemma spec_conway_bit: "spec_conway w h g y x = 0 \<or> spec_conway w h g y x = 1"
  by (simp add: spec_conway_def Let_def)

subsection \<open>The claims about the step\<close>

text \<open>
  C1, as stated, fails for wide grids: on the bit-valued grid of one row and
  \<open>2^30\<close> columns the index expression \<^verbatim>\<open>x + dx + gWidth\<close> of the last column exceeds
  \<open>INT_MAX\<close>, the neighbour count of that cell is undefined and the step yields no
  generation.
\<close>
theorem step_rule_overflows:
  "wf_grid 1073741824 1 [replicate 1073741824 0] \<and> bit_valued [replicate 1073741824 0]
   \<and> wf_table B028 \<and> wf_table S0124
   \<and> int_add (1073741823 + 1) 1073741824 = None
   \<and> neighbor_count 1073741824 1 [replicate 1073741824 0] 0 1073741823 = None
   \<and> step_rule B028 S0124 1073741824 1 ([replicate 1073741824 0], [replicate 1073741824 0]) = None"
proof (intro conjI)
  show "wf_grid 1073741824 1 [replicate 1073741824 0]" by (rule wide_wf)
  show "bit_valued [replicate 1073741824 0]" by (rule wide_bits)
  show "wf_table B028" "wf_table S0124" by (simp_all add: wf_table_def B028_def S0124_def)
  show "int_add (1073741823 + 1) 1073741824 = None" by (simp add: int_add_def INT_MAX_def)
  show "neighbor_count 1073741824 1 [replicate 1073741824 0] 0 1073741823 = None"
    by (rule wide_count)
  show "step_rule B028 S0124 1073741824 1 ([replicate 1073741824 0], [replicate 1073741824 0]) = None"
    by (rule wide_rule) (simp_all add: B028_def S0124_def)
qed

text \<open>
  C1, amended. On a grid whose cells are 0 or 1 and whose width and height are positive
  and at most \<open>2^30 - 1\<close>, with any two nine-entry tables, the step returns; for every
  cell \<open>(y, x)\<close> the neighbour count it computes is the specification's sum over the eight
  toroidal neighbours \<open>((y+dy+height) mod height, (x+dx+width) mod width)\<close>, which is the
  number of live neighbours, and the cell of the new generation is
  \<open>(not alive AND B[n]) OR (alive AND S[n])\<close> with \<open>alive = (current[y][x] \<noteq> 0)\<close>.
\<close>
theorem step_computes_rule:
  assumes "wf_grid w h cur" "wf_grid w h nxt" "bit_valued cur" "dims_fit w h"
    and "wf_table tB" "wf_table tS"
  shows "\<exists>new. step_rule tB tS w h (cur, nxt) = Some (new, cur) \<and> wf_grid w h new \<and>
           (\<forall>y x. 0 \<le> y \<and> y < h \<and> 0 \<le> x \<and> x < w \<longrightarrow>
              neighbor_count w h cur y x = Some (spec_count w h cur y x) \<and>
              spec_count w h cur y x =
                int (length (filter (\<lambda>d. spec_neighbour w h cur y x d \<noteq> 0) neighbour_offsets)) \<and>
              cell cur y x = Some (cur ! nat y ! nat x) \<and>
              cell new y x = Some (of_bool (spec_nextAlive tB tS (spec_alive cur y x)
                                              (spec_count w h cur y x))))"
proof -
  let ?new = "grid_of w h (spec_next tB tS w h cur)"
  have len: "length tB = 9" "length tS = 9" using assms(5,6) by (simp_all add: wf_table_def)
  have pos: "0 < w" "0 < h" using assms(4) by (simp_all add: dims_fit_def)
  have "step_rule tB tS w h (cur, nxt) = Some (?new, cur)"
    using assms(1,2,4) bit_valued_counts [OF assms(1,3)] len by (rule step_rule_result)
  moreover have "wf_grid w h ?new" using assms(1) by (rule wf_grid_of_like)
  moreover have "neighbor_count w h cur y x = Some (spec_count w h cur y x) \<and>
      spec_count w h cur y x =
        int (length (filter (\<lambda>d. spec_neighbour w h cur y x d \<noteq> 0) neighbour_offsets)) \<and>
      cell cur y x = Some (cur ! nat y ! nat x) \<and>
      cell ?new y x = Some (of_bool (spec_nextAlive tB tS (spec_alive cur y x) (spec_count w h cur y x)))"
    if "0 \<le> y \<and> y < h \<and> 0 \<le> x \<and> x < w" for y x
  proof -
    from that have r: "0 \<le> y" "y < h" "0 \<le> x" "x < w" by simp_all
    show ?thesis
      using neighbor_count_spec [OF assms(1,4) r] spec_count_live [OF assms(1,3) pos(2,1), of y x]
        cell_in [OF assms(1) r] cell_grid_of [OF r, of "spec_next tB tS w h cur"]
      by (simp add: spec_next_def)
  qed
  ultimately show ?thesis by blast
qed

theorem step_computes_rule_witness:
  "wf_grid 3 3 [[0,1,0],[0,1,0],[0,1,0]] \<and> wf_grid 3 3 [[0,0,0],[0,0,0],[0,0,0]]
   \<and> bit_valued [[0,1,0],[0,1,0],[0,1,0]] \<and> dims_fit 3 3 \<and> wf_table B028 \<and> wf_table S0124
   \<and> (\<exists>new. step_rule B028 S0124 3 3 ([[0,1,0],[0,1,0],[0,1,0]], [[0,0,0],[0,0,0],[0,0,0]])
               = Some (new, [[0,1,0],[0,1,0],[0,1,0]])
         \<and> neighbor_count 3 3 [[0,1,0],[0,1,0],[0,1,0]] 1 1 = Some 2
         \<and> cell new 1 1 = Some 1)"
proof -
  let ?g = "[[0,1,0],[0,1,0],[0,1,0]] :: Grid" and ?z = "[[0,0,0],[0,0,0],[0,0,0]] :: Grid"
  have h: "wf_grid 3 3 ?g" "wf_grid 3 3 ?z" "bit_valued ?g" "dims_fit 3 3" "wf_table B028" "wf_table S0124"
    by (simp_all add: wf_grid_def bit_valued_def wf_table_def B028_def S0124_def dims_fit_def INT_MAX_def)
  have n: "spec_count 3 3 ?g 1 1 = 2"
    by (simp add: spec_count_def neighbour_offsets_eq spec_neighbour_def)
  have v: "of_bool (spec_nextAlive B028 S0124 (spec_alive ?g 1 1) 2) = (1 :: u8)"
    by (simp add: spec_nextAlive_def spec_alive_def B028_def S0124_def)
  from step_computes_rule [OF h]
  obtain new where "step_rule B028 S0124 3 3 (?g, ?z) = Some (new, ?g)"
    and "neighbor_count 3 3 ?g 1 1 = Some (spec_count 3 3 ?g 1 1)"
    and "cell new 1 1 = Some (of_bool (spec_nextAlive B028 S0124 (spec_alive ?g 1 1) (spec_count 3 3 ?g 1 1)))"
    by force
  then show ?thesis using h by (auto simp: n v)
qed

text \<open>
  C2, as stated, fails for wide grids: on the grid of one row and \<open>2^30\<close> columns
  neither the Conway step nor the table-driven step with the default tables, on one thread
  or under the row-major schedule of the parallel loop, yields a next grid. It also fails
  for a grid that is not bit-valued: on the 1 x 1 grid whose cell is 2 the Conway step
  returns the dead grid, and the table-driven step with the default tables reads entry 16
  of a nine-entry table.
\<close>
theorem strategies_undefined_wide:
  "wf_grid 1073741824 1 [replicate 1073741824 0] \<and> bit_valued [replicate 1073741824 0]
   \<and> schedule 1073741824 1 (cells 1073741824 1)
   \<and> step_life 1073741824 1 ([replicate 1073741824 0], [replicate 1073741824 0]) = None
   \<and> step_rule (B conway_tables) (S conway_tables) 1073741824 1
        ([replicate 1073741824 0], [replicate 1073741824 0]) = None
   \<and> step_rule_omp (cells 1073741824 1) (B conway_tables) (S conway_tables) 1073741824 1
        ([replicate 1073741824 0], [replicate 1073741824 0]) = None
   \<and> wf_grid 1 1 [[2]] \<and> wf_grid 1 1 [[0]]
   \<and> step_life 1 1 ([[2]], [[0]]) = Some ([[0]], [[2]])
   \<and> step_rule (B conway_tables) (S conway_tables) 1 1 ([[2]], [[0]]) = None"
proof (intro conjI)
  have len: "length (B conway_tables) = 9" "length (S conway_tables) = 9"
    by (simp_all add: conway_tables_def)
  show "wf_grid 1 1 [[2]]" "wf_grid 1 1 [[0]]" by (simp_all add: wf_grid_def)
  show "step_life 1 1 ([[2]], [[0]]) = Some ([[0]], [[2]])" by code_simp
  show "step_rule (B conway_tables) (S conway_tables) 1 1 ([[2]], [[0]]) = None" by code_simp
  show "wf_grid 1073741824 1 [replicate 1073741824 0]" by (rule wide_wf)
  show "bit_valued [replicate 1073741824 0]" by (rule wide_bits)
  show s: "schedule 1073741824 1 (cells 1073741824 1)" by (rule row_major_schedule) simp
  show "step_life 1073741824 1 ([replicate 1073741824 0], [replicate 1073741824 0]) = None"
    by (rule wide_life)
  show "step_rule (B conway_tables) (S conway_tables) 1073741824 1
        ([replicate 1073741824 0], [replicate 1073741824 0]) = None"
    using len by (rule wide_rule)
  show "step_rule_omp (cells 1073741824 1) (B conway_tables) (S conway_tables) 1073741824 1
        ([replicate 1073741824 0], [replicate 1073741824 0]) = None"
    using step_rule_omp_eq [OF wide_wf wide_wf wide_range len s] wide_unfit by simp
qed

text \<open>
  C2, amended. On a bit-valued grid whose width and height are positive and at most
  \<open>2^30 - 1\<close> the table-driven step gives the same pair of buffers when its iterations
  run in row-major order on one thread and when they run in the order of any schedule of
  the parallel loop (so for any number of threads and any interleaving, and any two
  schedules agree); and the hard-coded Conway step gives the same result as the
  table-driven step, sequential or parallel, with the default tables Birth = {3},
  Survive = {2, 3}, which are the tables the parser returns for the empty rulestring. The
  fixed-size program runs the Conway step at 80 x 24.
\<close>
theorem strategies_agree:
  assumes "wf_grid w h cur" "wf_grid w h nxt" "bit_valued cur" "dims_fit w h"
    and "wf_table tB" "wf_table tS" "schedule w h order" "schedule w h order'"
  shows "(\<exists>r. step_rule tB tS w h (cur, nxt) = Some r \<and>
              step_rule_omp order tB tS w h (cur, nxt) = Some r \<and>
              step_rule_omp order' tB tS w h (cur, nxt) = Some r)
       \<and> (\<exists>r. step_life w h (cur, nxt) = Some r \<and>
              step_rule (B conway_tables) (S conway_tables) w h (cur, nxt) = Some r \<and>
              step_rule_omp order (B conway_tables) (S conway_tables) w h (cur, nxt) = Some r)
       \<and> map_option fst (parse_rulestring '''') = Some conway_tables
       \<and> step_fixed = step_life kWidth kHeight"
proof -
  have len: "length tB = 9" "length tS = 9" using assms(5,6) by (simp_all add: wf_table_def)
  have lenc: "length (B conway_tables) = 9" "length (S conway_tables) = 9"
    by (simp_all add: conway_tables_def)
  note c = bit_valued_counts [OF assms(1,3)]
  note r = dims_fit_range [OF assms(4)]
  have "step_rule_omp order tB tS w h (cur, nxt) = step_rule tB tS w h (cur, nxt)"
    using step_rule_result [OF assms(1,2,4) c len] step_rule_omp_result [OF assms(1,2,4) c len assms(7)]
    by simp
  moreover have "step_rule_omp order' tB tS w h (cur, nxt) = step_rule tB tS w h (cur, nxt)"
    using step_rule_result [OF assms(1,2,4) c len] step_rule_omp_result [OF assms(1,2,4) c len assms(8)]
    by simp
  moreover have "step_rule_omp order (B conway_tables) (S conway_tables) w h (cur, nxt)
                   = step_rule (B conway_tables) (S conway_tables) w h (cur, nxt)"
    using step_rule_result [OF assms(1,2,4) c lenc] step_rule_omp_result [OF assms(1,2,4) c lenc assms(7)]
    by simp
  moreover have "map_option fst (parse_rulestring '''') = Some conway_tables"
    using parse_no_marker [of "''''"] by simp
  moreover have "step_fixed = step_life kWidth kHeight"
    by (rule ext) (simp add: step_fixed_def)
  moreover have "step_rule (B conway_tables) (S conway_tables) w h (cur, nxt) = step_life w h (cur, nxt)"
    using assms(1,2) r c by (intro step_life_rule) simp_all
  ultimately show ?thesis
    using step_rule_result [OF assms(1,2,4) c len] step_life_result [OF assms(1,2,4)]
    by simp
qed

theorem strategies_agree_witness:
  "wf_grid 2 2 [[1,0],[1,1]] \<and> wf_grid 2 2 [[0,0],[0,0]] \<and> bit_valued [[1,0],[1,1]] \<and> dims_fit 2 2
   \<and> wf_table B028 \<and> wf_table S0124 \<and> schedule 2 2 [(1,1),(0,0),(1,0),(0,1)]
   \<and> schedule 2 2 [(0,1),(1,0),(0,0),(1,1)]
   \<and> (\<exists>r. step_rule B028 S0124 2 2 ([[1,0],[1,1]], [[0,0],[0,0]]) = Some r \<and>
              step_rule_omp [(1,1),(0,0),(1,0),(0,1)] B028 S0124 2 2 ([[1,0],[1,1]], [[0,0],[0,0]]) = Some r \<and>
              step_rule_omp [(0,1),(1,0),(0,0),(1,1)] B028 S0124 2 2 ([[1,0],[1,1]], [[0,0],[0,0]]) = Some r)
   \<and> (\<exists>r. step_life 2 2 ([[1,0],[1,1]], [[0,0],[0,0]]) = Some r \<and>
              step_rule (B conway_tables) (S conway_tables) 2 2 ([[1,0],[1,1]], [[0,0],[0,0]]) = Some r)"
proof -
  let ?g = "[[1,0],[1,1]] :: Grid" and ?z = "[[0,0],[0,0]] :: Grid"
  have h: "wf_grid 2 2 ?g" "wf_grid 2 2 ?z" "bit_valued ?g" "dims_fit 2 2" "wf_table B028" "wf_table S0124"
    by (simp_all add: wf_grid_def bit_valued_def wf_table_def B028_def S0124_def dims_fit_def INT_MAX_def)
  have s: "schedule 2 2 [(1,1),(0,0),(1,0),(0,1)]" "schedule 2 2 [(0,1),(1,0),(0,0),(1,1)]"
    by (auto simp: schedule_def set_cells)
  from strategies_agree [OF h s] h s show ?thesis by blast
qed

text \<open>
  C3, as stated, fails for wide grids: on the grid of one row and \<open>2^30\<close> columns the
  pass of either kernel is undefined, so no step returns with the buffers swapped. For
  the table-driven kernel it also fails on the 1 x 1 grid whose cell is 2, where the pass
  reads entry 16 of a nine-entry table.
\<close>
theorem pass_undefined_wide:
  "wf_grid 1073741824 1 [replicate 1073741824 0] \<and> bit_valued [replicate 1073741824 0]
   \<and> for_lt 0 1 (\<lambda>y. for_lt 0 1073741824 (\<lambda>x. rule_cell B028 S0124 1073741824 1 y x))
        ([replicate 1073741824 0], [replicate 1073741824 0]) = None
   \<and> for_lt 0 1 (\<lambda>y. for_lt 0 1073741824 (\<lambda>x. life_cell 1073741824 1 y x))
        ([replicate 1073741824 0], [replicate 1073741824 0]) = None
   \<and> step_invertAmaze 1073741824 1 ([replicate 1073741824 0], [replicate 1073741824 0]) = None
   \<and> step_life 1073741824 1 ([replicate 1073741824 0], [replicate 1073741824 0]) = None
   \<and> wf_grid 1 1 [[2]] \<and> wf_grid 1 1 [[0]]
   \<and> for_lt 0 1 (\<lambda>y. for_lt 0 1 (\<lambda>x. rule_cell B028 S0124 1 1 y x)) ([[2]], [[0]]) = None"
proof (intro conjI)
  have len: "length B028 = 9" "length S0124 = 9" by (simp_all add: B028_def S0124_def)
  show "wf_grid 1 1 [[2]]" "wf_grid 1 1 [[0]]" by (simp_all add: wf_grid_def)
  show "for_lt 0 1 (\<lambda>y. for_lt 0 1 (\<lambda>x. rule_cell B028 S0124 1 1 y x)) ([[2]], [[0]]) = None"
    by code_simp
  show "wf_grid 1073741824 1 [replicate 1073741824 0]" by (rule wide_wf)
  show "bit_valued [replicate 1073741824 0]" by (rule wide_bits)
  show "for_lt 0 1 (\<lambda>y. for_lt 0 1073741824 (\<lambda>x. rule_cell B028 S0124 1073741824 1 y x))
        ([replicate 1073741824 0], [replicate 1073741824 0]) = None"
    using rule_pass [OF wide_wf wide_wf wide_range len refl] wide_unfit
    by (simp add: loops_cells)
  show "for_lt 0 1 (\<lambda>y. for_lt 0 1073741824 (\<lambda>x. life_cell 1073741824 1 y x))
        ([replicate 1073741824 0], [replicate 1073741824 0]) = None"
    using life_pass [OF wide_wf wide_wf wide_range refl] wide_unfit
    by (simp add: loops_cells)
  show "step_invertAmaze 1073741824 1 ([replicate 1073741824 0], [replicate 1073741824 0]) = None"
    unfolding step_invertAmaze_def using len by (rule wide_rule)
  show "step_life 1073741824 1 ([replicate 1073741824 0], [replicate 1073741824 0]) = None"
    by (rule wide_life)
qed

text \<open>
  C3, amended. On bit-valued grids whose width and height are positive and at most
  \<open>2^30 - 1\<close>, for both kernels: the loop nest leaves the current buffer as it was and
  fills the next buffer; each iteration \<open>(y, x)\<close> changes nothing but cell \<open>(y, x)\<close> of the
  next buffer, to a value computed from the current buffer; every cell of the result is
  that function of the previous generation, whatever the next buffer held before
  (\<open>nxt'\<close> is any other content of it); and after the swap the first buffer holds the new
  generation and the second holds the previous generation unchanged.
\<close>
theorem double_buffering:
  assumes "wf_grid w h cur" "wf_grid w h nxt" "wf_grid w h nxt'" "bit_valued cur" "dims_fit w h"
    and "wf_table tB" "wf_table tS"
  shows "(\<exists>new. for_lt 0 h (\<lambda>y. for_lt 0 w (\<lambda>x. rule_cell tB tS w h y x)) (cur, nxt) = Some (cur, new)
            \<and> step_rule tB tS w h (cur, nxt) = Some (new, cur)
            \<and> step_rule tB tS w h (cur, nxt') = Some (new, cur)
            \<and> (\<forall>y x. 0 \<le> y \<and> y < h \<and> 0 \<le> x \<and> x < w \<longrightarrow>
                 rule_cell tB tS w h y x (cur, nxt) =
                   Some (cur, nxt[nat y := (nxt ! nat y)[nat x := spec_next tB tS w h cur y x]])
                 \<and> cell new y x = Some (spec_next tB tS w h cur y x)))
       \<and> (\<exists>new. for_lt 0 h (\<lambda>y. for_lt 0 w (\<lambda>x. life_cell w h y x)) (cur, nxt) = Some (cur, new)
            \<and> step_life w h (cur, nxt) = Some (new, cur)
            \<and> step_life w h (cur, nxt') = Some (new, cur)
            \<and> (\<forall>y x. 0 \<le> y \<and> y < h \<and> 0 \<le> x \<and> x < w \<longrightarrow>
                 life_cell w h y x (cur, nxt) =
                   Some (cur, nxt[nat y := (nxt ! nat y)[nat x := spec_conway w h cur y x]])
                 \<and> cell new y x = Some (spec_conway w h cur y x)))"
proof (intro conjI)
  have len: "length tB = 9" "length tS = 9" using assms(6,7) by (simp_all add: wf_table_def)
  note c = bit_valued_counts [OF assms(1,4)]
  have rg: "0 < w" "0 < h" "w \<le> INT_MAX" "h \<le> INT_MAX"
    using dims_fit_range [OF assms(5)] by simp_all
  let ?new = "grid_of w h (spec_next tB tS w h cur)"
  have "for_lt 0 h (\<lambda>y. for_lt 0 w (\<lambda>x. rule_cell tB tS w h y x)) (cur, nxt) = Some (cur, ?new)"
    using assms(5) c by (simp add: loops_cells rule_pass [OF assms(1,2) rg len refl])
  moreover have "rule_cell tB tS w h y x (cur, nxt) =
                   Some (cur, nxt[nat y := (nxt ! nat y)[nat x := spec_next tB tS w h cur y x]])
                 \<and> cell ?new y x = Some (spec_next tB tS w h cur y x)"
    if "0 \<le> y \<and> y < h \<and> 0 \<le> x \<and> x < w" for y x
  proof -
    from that have r: "0 \<le> y" "y < h" "0 \<le> x" "x < w" by simp_all
    from spec_count_bounds [OF assms(1,4) rg(2,1), of y x] dims_fit_cell(1) [OF assms(5) r(2,4)]
      rule_cell_eq [OF assms(1,2) r rg(4,3) len] cell_grid_of [OF r]
    show ?thesis by simp
  qed
  ultimately show "\<exists>new. for_lt 0 h (\<lambda>y. for_lt 0 w (\<lambda>x. rule_cell tB tS w h y x)) (cur, nxt) = Some (cur, new)
            \<and> step_rule tB tS w h (cur, nxt) = Some (new, cur)
            \<and> step_rule tB tS w h (cur, nxt') = Some (new, cur)
            \<and> (\<forall>y x. 0 \<le> y \<and> y < h \<and> 0 \<le> x \<and> x < w \<longrightarrow>
                 rule_cell tB tS w h y x (cur, nxt) =
                   Some (cur, nxt[nat y := (nxt ! nat y)[nat x := spec_next tB tS w h cur y x]])
                 \<and> cell new y x = Some (spec_next tB tS w h cur y x))"
    using step_rule_result [OF assms(1,2,5) c len] step_rule_result [OF assms(1,3,5) c len]
    by blast
next
  have rg: "0 < w" "0 < h" "w \<le> INT_MAX" "h \<le> INT_MAX"
    using dims_fit_range [OF assms(5)] by simp_all
  let ?new = "grid_of w h (spec_conway w h cur)"
  have "for_lt 0 h (\<lambda>y. for_lt 0 w (\<lambda>x. life_cell w h y x)) (cur, nxt) = Some (cur, ?new)"
    using assms(5) by (simp add: loops_cells life_pass [OF assms(1,2) rg refl])
  moreover have "life_cell w h y x (cur, nxt) =
                   Some (cur, nxt[nat y := (nxt ! nat y)[nat x := spec_conway w h cur y x]])
                 \<and> cell ?new y x = Some (spec_conway w h cur y x)"
    if "0 \<le> y \<and> y < h \<and> 0 \<le> x \<and> x < w" for y x
  proof -
    from that have r: "0 \<le> y" "y < h" "0 \<le> x" "x < w" by simp_all
    from dims_fit_cell(1) [OF assms(5) r(2,4)] life_cell_eq [OF assms(1,2) r rg(4,3)] cell_grid_of [OF r]
    show ?thesis by simp
  qed
  ultimately show "\<exists>new. for_lt 0 h (\<lambda>y. for_lt 0 w (\<lambda>x. life_cell w h y x)) (cur, nxt) = Some (cur, new)
            \<and> step_life w h (cur, nxt) = Some (new, cur)
            \<and> step_life w h (cur, nxt') = Some (new, cur)
            \<and> (\<forall>y x. 0 \<le> y \<and> y < h \<and> 0 \<le> x \<and> x < w \<longrightarrow>
                 life_cell w h y x (cur, nxt) =
                   Some (cur, nxt[nat y := (nxt ! nat y)[nat x := spec_conway w h cur y x]])
                 \<and> cell new y x = Some (spec_conway w h cur y x))"
    using step_life_result [OF assms(1,2,5)] step_life_result [OF assms(1,3,5)]
    by blast
qed

theorem double_buffering_witness:
  "wf_grid 2 2 [[1,0],[1,1]] \<and> wf_grid 2 2 [[0,0],[0,0]] \<and> wf_grid 2 2 [[1,1],[1,1]]
   \<and> bit_valued [[1,0],[1,1]] \<and> dims_fit 2 2 \<and> wf_table B028 \<and> wf_table S0124
   \<and> (\<exists>new. step_rule B028 S0124 2 2 ([[1,0],[1,1]], [[0,0],[0,0]]) = Some (new, [[1,0],[1,1]])
           \<and> step_rule B028 S0124 2 2 ([[1,0],[1,1]], [[1,1],[1,1]]) = Some (new, [[1,0],[1,1]]))
   \<and> (\<exists>new. step_life 2 2 ([[1,0],[1,1]], [[0,0],[0,0]]) = Some (new, [[1,0],[1,1]])
           \<and> step_life 2 2 ([[1,0],[1,1]], [[1,1],[1,1]]) = Some (new, [[1,0],[1,1]]))"
proof -
  let ?g = "[[1,0],[1,1]] :: Grid" and ?z = "[[0,0],[0,0]] :: Grid" and ?o = "[[1,1],[1,1]] :: Grid"
  have h: "wf_grid 2 2 ?g" "wf_grid 2 2 ?z" "wf_grid 2 2 ?o" "bit_valued ?g" "dims_fit 2 2"
      "wf_table B028" "wf_table S0124"
    by (simp_all add: wf_grid_def bit_valued_def wf_table_def B028_def S0124_def dims_fit_def INT_MAX_def)
  from double_buffering [OF h] h show ?thesis by blast
qed

subsection \<open>Wrap-around\<close>

lemma member_le_sum_list_int:
  assumes "\<forall>e \<in> set ds. 0 \<le> f e" "d \<in> set ds"
  shows "f d \<le> (\<Sum>e \<leftarrow> ds. f e :: int)"
  using assms
proof (induction ds)
  case Nil
  then show ?case by simp
next
  case (Cons e ds)
  have "0 \<le> (\<Sum>e \<leftarrow> ds. f e)"
    by (rule sum_list_nonneg) (use Cons.prems in auto)
  moreover have "0 \<le> f e" using Cons.prems by simp
  ultimately show ?case using Cons by auto
qed

lemma neighbour_le_count:
  assumes "d \<in> set neighbour_offsets"
  shows "uint (spec_neighbour w h g y x d) \<le> spec_count w h g y x"
  unfolding spec_count_def using _ assms by (rule member_le_sum_list_int) simp

lemma seen_neighbour:
  assumes "wf_grid w h g" "dims_fit w h" "0 \<le> y" "y < h" "0 \<le> x" "x < w"
    and "d \<in> set neighbour_offsets"
  shows "\<exists>n. neighbor_count w h g y x = Some n \<and> uint (spec_neighbour w h g y x d) \<le> n"
  using neighbor_count_spec [OF assms(1-6)] neighbour_le_count [OF assms(7)] by simp

lemma wrap_down:
  assumes "0 < n"
  shows "(0 + - 1 + n) mod n = n - (1::int)"
proof -
  have "(0 + - 1 + n) mod n = (n - 1) mod n" by simp
  also have "\<dots> = n - 1" using assms by (intro mod_pos_pos_trivial) simp_all
  finally show ?thesis .
qed

lemma wrap_up: "0 < n \<Longrightarrow> (n - 1 + 1 + n) mod n = (0::int)"
  by simp

lemma wrap_stay: "0 \<le> i \<Longrightarrow> i < n \<Longrightarrow> (i + 0 + n) mod n = (i::int)"
  by simp

text \<open>
  C4, as stated, fails for wide grids: on the grid of one row and \<open>2^30\<close> columns, all
  live, the count of the cell in the last column, whose right-hand neighbour is the cell of
  column 0, is undefined: \<^verbatim>\<open>x + dx + gWidth\<close> is \<open>2^31\<close>.
\<close>
theorem right_edge_undefined_wide:
  "wf_grid 1073741824 1 [replicate 1073741824 1] \<and> (0::int) < 1073741824 \<and> (0::int) < 1
   \<and> cell [replicate 1073741824 1] 0 0 = Some 1
   \<and> neighbor_count 1073741824 1 [replicate 1073741824 1] 0 (1073741824 - 1) = None"
proof (intro conjI)
  show "wf_grid 1073741824 1 [replicate 1073741824 1]" by (rule wide_wf)
  show "(0::int) < 1073741824" "(0::int) < 1" by simp_all
  show "cell [replicate 1073741824 1] 0 0 = Some 1" by (simp add: cell_def at_def)
  show "neighbor_count 1073741824 1 [replicate 1073741824 1] 0 (1073741824 - 1) = None"
    using wide_count [of 1] by simp
qed

text \<open>
  C4, amended. On a grid whose width and height are positive and at most \<open>2^30 - 1\<close>
  the neighbour count of cell \<open>(0, 0)\<close> includes the cell \<open>(height-1, width-1)\<close>: the
  count is at least that cell's value, so at least 1 when it is live. Likewise a cell of
  the top row counts the cell below the bottom edge in its column, a cell of the bottom
  row the one of the top row, a cell of the left column the one of the right column in its
  row, and a cell of the right column the one of the left column.
\<close>
theorem toroidal_neighbours:
  assumes "wf_grid w h g" "dims_fit w h" "0 \<le> y" "y < h" "0 \<le> x" "x < w"
  shows "(\<exists>n. neighbor_count w h g 0 0 = Some n \<and> uint (g ! nat (h - 1) ! nat (w - 1)) \<le> n)
       \<and> (\<exists>n. neighbor_count w h g 0 x = Some n \<and> uint (g ! nat (h - 1) ! nat x) \<le> n)
       \<and> (\<exists>n. neighbor_count w h g (h - 1) x = Some n \<and> uint (g ! nat 0 ! nat x) \<le> n)
       \<and> (\<exists>n. neighbor_count w h g y 0 = Some n \<and> uint (g ! nat y ! nat (w - 1)) \<le> n)
       \<and> (\<exists>n. neighbor_count w h g y (w - 1) = Some n \<and> uint (g ! nat y ! nat 0) \<le> n)"
proof (intro conjI)
  have pw: "0 < w" and ph: "0 < h" using assms(2) by (simp_all add: dims_fit_def)
  have z: "(0::int) \<le> 0" by simp
  have hm: "0 \<le> h - 1" "h - 1 < h" and wm: "0 \<le> w - 1" "w - 1 < w"
    using pw ph by simp_all
  note a = assms(1,2)
  have "spec_neighbour w h g 0 0 (- 1, - 1) = g ! nat (h - 1) ! nat (w - 1)"
    by (simp only: spec_neighbour_def fst_conv snd_conv wrap_down [OF pw] wrap_down [OF ph])
  with seen_neighbour [OF a z ph z pw, of "(- 1, - 1)"]
  show "\<exists>n. neighbor_count w h g 0 0 = Some n \<and> uint (g ! nat (h - 1) ! nat (w - 1)) \<le> n"
    by (simp add: neighbour_offsets_eq)
  have "spec_neighbour w h g 0 x (- 1, 0) = g ! nat (h - 1) ! nat x"
    by (simp only: spec_neighbour_def fst_conv snd_conv wrap_down [OF ph] wrap_stay [OF assms(5,6)])
  with seen_neighbour [OF a z ph assms(5,6), of "(- 1, 0)"]
  show "\<exists>n. neighbor_count w h g 0 x = Some n \<and> uint (g ! nat (h - 1) ! nat x) \<le> n"
    by (simp add: neighbour_offsets_eq)
  have "spec_neighbour w h g (h - 1) x (1, 0) = g ! nat 0 ! nat x"
    by (simp only: spec_neighbour_def fst_conv snd_conv wrap_up [OF ph] wrap_stay [OF assms(5,6)])
  with seen_neighbour [OF a hm assms(5,6), of "(1, 0)"]
  show "\<exists>n. neighbor_count w h g (h - 1) x = Some n \<and> uint (g ! nat 0 ! nat x) \<le> n"
    by (simp add: neighbour_offsets_eq)
  have "spec_neighbour w h g y 0 (0, - 1) = g ! nat y ! nat (w - 1)"
    by (simp only: spec_neighbour_def fst_conv snd_conv wrap_down [OF pw] wrap_stay [OF assms(3,4)])
  with seen_neighbour [OF a assms(3,4) z pw, of "(0, - 1)"]
  show "\<exists>n. neighbor_count w h g y 0 = Some n \<and> uint (g ! nat y ! nat (w - 1)) \<le> n"
    by (simp add: neighbour_offsets_eq)
  have "spec_neighbour w h g y (w - 1) (0, 1) = g ! nat y ! nat 0"
    by (simp only: spec_neighbour_def fst_conv snd_conv wrap_up [OF pw] wrap_stay [OF assms(3,4)])
  with seen_neighbour [OF a assms(3,4) wm, of "(0, 1)"]
  show "\<exists>n. neighbor_count w h g y (w - 1) = Some n \<and> uint (g ! nat y ! nat 0) \<le> n"
    by (simp add: neighbour_offsets_eq)
qed

theorem toroidal_neighbours_witness:
  "wf_grid 4 3 [[0,0,0,0],[0,0,0,0],[0,0,0,1]] \<and> dims_fit 4 3
   \<and> (0::int) \<le> 1 \<and> (1::int) < 3 \<and> (1::int) < 4
   \<and> neighbor_count 4 3 [[0,0,0,0],[0,0,0,0],[0,0,0,1]] 0 0 = Some 1
   \<and> (\<exists>n. neighbor_count 4 3 [[0,0,0,0],[0,0,0,0],[0,0,0,1]] 0 0 = Some n
          \<and> uint ([[0,0,0,0],[0,0,0,0],[0,0,0,1 :: u8]] ! nat (3 - 1) ! nat (4 - 1)) \<le> n)"
proof -
  let ?g = "[[0,0,0,0],[0,0,0,0],[0,0,0,1]] :: Grid"
  have h: "wf_grid 4 3 ?g" "dims_fit 4 3" "(0::int) \<le> 1" "(1::int) < 3" "(1::int) < 4"
    by (simp_all add: wf_grid_def dims_fit_def INT_MAX_def)
  have n: "neighbor_count 4 3 ?g 0 0 = Some 1"
    using neighbor_count_spec [of 4 3 ?g 0 0] h(1,2)
    by (simp add: spec_count_def neighbour_offsets_eq spec_neighbour_def)
  from toroidal_neighbours [OF h(1,2,3,4,3,5)] h n show ?thesis by blast
qed

subsection \<open>The driver and the kernel's domain\<close>

text \<open>
  C9. With a width or height that is not positive, both programs exit with status 1,
  having written \<open>Invalid dimensions\<close> to the error stream and made no call of the step.
\<close>
theorem nonpositive_dimensions_rejected:
  assumes "opt_gWidth opts \<le> 0 \<or> opt_gHeight opts \<le> 0"
  shows "main_life fuel coin opts = Exited 1 (''Invalid dimensions'' @ [CHR 0x0A]) 0
       \<and> main_invertAmaze fuel coin opts = Exited 1 (''Invalid dimensions'' @ [CHR 0x0A]) 0"
  using assms by (auto simp: main_life_def main_invertAmaze_def run_main_def)

theorem nonpositive_dimensions_rejected_witness:
  "main_life 5 (\<lambda>k. True) \<lparr>opt_draw_enabled = False, opt_steps = 3, opt_gWidth = 0, opt_gHeight = 24\<rparr>
     = Exited 1 (''Invalid dimensions'' @ [CHR 0x0A]) 0
   \<and> main_invertAmaze 5 (\<lambda>k. True) \<lparr>opt_draw_enabled = False, opt_steps = 3, opt_gWidth = 0, opt_gHeight = 24\<rparr>
     = Exited 1 (''Invalid dimensions'' @ [CHR 0x0A]) 0
   \<and> main_life 5 (\<lambda>k. True) \<lparr>opt_draw_enabled = True, opt_steps = - 1, opt_gWidth = 80, opt_gHeight = - 1\<rparr>
     = Exited 1 (''Invalid dimensions'' @ [CHR 0x0A]) 0
   \<and> main_invertAmaze 5 (\<lambda>k. True) \<lparr>opt_draw_enabled = True, opt_steps = - 1, opt_gWidth = 80, opt_gHeight = - 1\<rparr>
     = Exited 1 (''Invalid dimensions'' @ [CHR 0x0A]) 0"
  using nonpositive_dimensions_rejected
          [of "\<lparr>opt_draw_enabled = False, opt_steps = 3, opt_gWidth = 0, opt_gHeight = 24\<rparr>" 5 "\<lambda>k. True"]
        nonpositive_dimensions_rejected
          [of "\<lparr>opt_draw_enabled = True, opt_steps = - 1, opt_gWidth = 80, opt_gHeight = - 1\<rparr>" 5 "\<lambda>k. True"]
  by simp

text \<open>
  C10, as stated, fails in two ways. For the table-driven step on the 1 x 1 grid whose
  cell is 2 the neighbour count is 16, the read of entry 16 of a nine-entry table is out
  of range and no new generation is defined. For either step on the grid of one row and
  \<open>2^30\<close> columns the index arithmetic of the last column exceeds \<open>INT_MAX\<close>.
\<close>
theorem table_index_out_of_range:
  "wf_grid 1 1 [[2]] \<and> wf_grid 1 1 [[0]] \<and> neighbor_count 1 1 [[2]] 0 0 = Some 16
   \<and> step_invertAmaze 1 1 ([[2]], [[0]]) = None
   \<and> wf_grid 1073741824 1 [replicate 1073741824 1]
   \<and> step_life 1073741824 1 ([replicate 1073741824 1], [replicate 1073741824 1]) = None"
proof (intro conjI)
  show "wf_grid 1 1 [[2]]" "wf_grid 1 1 [[0]]" by (simp_all add: wf_grid_def)
  show "neighbor_count 1 1 [[2]] 0 0 = Some 16" by code_simp
  show "step_invertAmaze 1 1 ([[2]], [[0]]) = None" by code_simp
  show "wf_grid 1073741824 1 [replicate 1073741824 1]" by (rule wide_wf)
  show "step_life 1073741824 1 ([replicate 1073741824 1], [replicate 1073741824 1]) = None"
    by (rule wide_life)
qed

text \<open>
  C10, amended. For two grids of the configured dimensions, positive and at most
  \<open>2^30 - 1\<close>, the Conway step returns with both buffers of those dimensions and every
  cell of the new generation 0 or 1, whatever values the input cells have. The
  table-driven step does so when no neighbour sum of the input exceeds 8, which holds in
  particular when every input cell is 0 or 1.
\<close>
theorem step_preserves_wellformedness:
  assumes "wf_grid w h cur" "wf_grid w h nxt" "dims_fit w h"
  shows "(\<exists>new. step_life w h (cur, nxt) = Some (new, cur) \<and> wf_grid w h new \<and> bit_valued new)
       \<and> (counts_in_table w h cur \<and> wf_table tB \<and> wf_table tS \<longrightarrow>
            (\<exists>new. step_rule tB tS w h (cur, nxt) = Some (new, cur) \<and> wf_grid w h new \<and> bit_valued new))
       \<and> (bit_valued cur \<longrightarrow> counts_in_table w h cur)"
proof (intro conjI impI)
  show "\<exists>new. step_life w h (cur, nxt) = Some (new, cur) \<and> wf_grid w h new \<and> bit_valued new"
    using step_life_result [OF assms] wf_grid_of_like [OF assms(1)]
      bit_valued_grid_of [of "spec_conway w h cur", OF spec_conway_bit]
    by blast
  show "\<exists>new. step_rule tB tS w h (cur, nxt) = Some (new, cur) \<and> wf_grid w h new \<and> bit_valued new"
    if "counts_in_table w h cur \<and> wf_table tB \<and> wf_table tS"
    using step_rule_result [OF assms, of tB tS] that wf_grid_of_like [OF assms(1)]
      bit_valued_grid_of [of "spec_next tB tS w h cur", OF spec_next_bit]
    by (auto simp: wf_table_def)
  show "counts_in_table w h cur" if "bit_valued cur"
    using assms(1) that by (rule bit_valued_counts)
qed

theorem step_preserves_wellformedness_witness:
  "wf_grid 2 2 [[7,0],[1,1]] \<and> wf_grid 2 2 [[0,0],[0,0]] \<and> dims_fit 2 2
   \<and> (\<exists>new. step_life 2 2 ([[7,0],[1,1]], [[0,0],[0,0]]) = Some (new, [[7,0],[1,1]])
          \<and> wf_grid 2 2 new \<and> bit_valued new)
   \<and> wf_grid 2 2 [[1,0],[1,1]] \<and> bit_valued [[1,0],[1,1]] \<and> counts_in_table 2 2 [[1,0],[1,1]]
   \<and> wf_table B028 \<and> wf_table S0124
   \<and> (\<exists>new. step_rule B028 S0124 2 2 ([[1,0],[1,1]], [[0,0],[0,0]]) = Some (new, [[1,0],[1,1]])
          \<and> wf_grid 2 2 new \<and> bit_valued new)"
proof -
  let ?g = "[[7,0],[1,1]] :: Grid" and ?b = "[[1,0],[1,1]] :: Grid" and ?z = "[[0,0],[0,0]] :: Grid"
  have h: "wf_grid 2 2 ?g" "wf_grid 2 2 ?z" "wf_grid 2 2 ?b" "bit_valued ?b"
      "wf_table B028" "wf_table S0124" "dims_fit 2 2"
    by (simp_all add: wf_grid_def bit_valued_def wf_table_def B028_def S0124_def dims_fit_def INT_MAX_def)
  from step_preserves_wellformedness [OF h(1,2,7), of B028 S0124]
       step_preserves_wellformedness [OF h(3,2,7), of B028 S0124] h
  show ?thesis by blast
qed

subsection \<open>The 2x2 block\<close>

lemma nth_grid_of:
  assumes "0 \<le> y" "y < h" "0 \<le> x" "x < w"
  shows "grid_of w h f ! nat y ! nat x = f y x"
  using assms by (simp add: grid_of_def)

lemma wrap_minus:
  assumes "0 \<le> i" "i < n"
  shows "(i + - 1 + n) mod n = (if i = 0 then n - 1 else i - (1::int))"
proof (cases "i = 0")
  case True
  then show ?thesis using wrap_down [of n] assms by simp
next
  case False
  have "(i + - 1 + n) mod n = (i - 1) mod n" by simp
  also have "\<dots> = i - 1" using assms False by (intro mod_pos_pos_trivial) simp_all
  finally show ?thesis using False by simp
qed

lemma wrap_plus:
  assumes "0 \<le> i" "i < n"
  shows "(i + 1 + n) mod n = (if i = n - 1 then 0 else i + (1::int))"
proof (cases "i = n - 1")
  case True
  then show ?thesis by simp
next
  case False
  have "(i + 1 + n) mod n = (i + 1) mod n" by simp
  also have "\<dots> = i + 1" using assms False by (intro mod_pos_pos_trivial) simp_all
  finally show ?thesis using False by simp
qed

lemma succ_mod:
  assumes "0 \<le> p" "p < n"
  shows "(p + 1) mod n = (if p = n - 1 then 0 else p + (1::int))"
proof (cases "p = n - 1")
  case True
  then show ?thesis by simp
next
  case False
  then show ?thesis using assms by simp
qed

lemma block_rows:
  fixes n i p :: int
  assumes "4 \<le> n" "0 \<le> i" "i < n" "0 \<le> p" "p < n"
  defines "r \<equiv> \<lambda>d. (i + d + n) mod n = p \<or> (i + d + n) mod n = (p + 1) mod n"
  shows "r 0 \<longleftrightarrow> (i = p \<or> i = (p + 1) mod n)"
    and "r 0 \<Longrightarrow> r (- 1) \<noteq> r 1"
    and "\<not> r 0 \<Longrightarrow> \<not> (r (- 1) \<and> r 1)"
proof -
  have z: "(i + 0 + n) mod n = i" using assms by simp
  note m = wrap_minus [OF assms(2,3)] and pl = wrap_plus [OF assms(2,3)] and q = succ_mod [OF assms(4,5)]
  show "r 0 \<longleftrightarrow> (i = p \<or> i = (p + 1) mod n)" by (simp only: r_def z)
  show "r 0 \<Longrightarrow> r (- 1) \<noteq> r 1"
    using assms(1-5) unfolding r_def z m pl q by (auto split: if_splits)
  show "\<not> r 0 \<Longrightarrow> \<not> (r (- 1) \<and> r 1)"
    using assms(1-5) unfolding r_def z m pl q by (auto split: if_splits)
qed

lemma block_count_bool:
  fixes rm r0 rp cm c0 cp :: bool
  assumes "r0 \<Longrightarrow> rm \<noteq> rp" "\<not> r0 \<Longrightarrow> \<not> (rm \<and> rp)" "c0 \<Longrightarrow> cm \<noteq> cp" "\<not> c0 \<Longrightarrow> \<not> (cm \<and> cp)"
  shows "(if r0 \<and> c0
          then (of_bool (rm \<and> cm) + (of_bool (rm \<and> c0) + (of_bool (rm \<and> cp) + (of_bool (r0 \<and> cm)
                + (of_bool (r0 \<and> cp) + (of_bool (rp \<and> cm) + (of_bool (rp \<and> c0) + of_bool (rp \<and> cp))))))) :: int) \<in> {2, 3}
          else (of_bool (rm \<and> cm) + (of_bool (rm \<and> c0) + (of_bool (rm \<and> cp) + (of_bool (r0 \<and> cm)
                + (of_bool (r0 \<and> cp) + (of_bool (rp \<and> cm) + (of_bool (rp \<and> c0) + of_bool (rp \<and> cp))))))) :: int) = 3)
         = (r0 \<and> c0)"
  using assms by (cases rm; cases r0; cases rp; cases cm; cases c0; cases cp; simp)

lemma block_cell_stable:
  assumes "4 \<le> w" "4 \<le> h" "0 \<le> y0" "y0 < h" "0 \<le> x0" "x0 < w"
    and "0 \<le> y" "y < h" "0 \<le> x" "x < w"
  shows "spec_conway w h (block_grid w h y0 x0) y x = of_bool (in_block w h y0 x0 y x)"
proof -
  let ?g = "block_grid w h y0 x0"
  define r where "r d \<longleftrightarrow> (y + d + h) mod h = y0 \<or> (y + d + h) mod h = (y0 + 1) mod h" for d
  define c where "c d \<longleftrightarrow> (x + d + w) mod w = x0 \<or> (x + d + w) mod w = (x0 + 1) mod w" for d
  have hw: "0 < h" "0 < w" using assms by simp_all
  have nb: "uint (spec_neighbour w h ?g y x (dy, dx)) = of_bool (r dy \<and> c dx)" for dy dx
  proof -
    have "spec_neighbour w h ?g y x (dy, dx) = of_bool (in_block w h y0 x0 ((y + dy + h) mod h) ((x + dx + w) mod w))"
      unfolding spec_neighbour_def block_grid_def fst_conv snd_conv
      using pos_mod_sign [OF hw(1)] pos_mod_bound [OF hw(1)] pos_mod_sign [OF hw(2)] pos_mod_bound [OF hw(2)]
      by (rule nth_grid_of)
    then show ?thesis by (simp add: in_block_def r_def c_def)
  qed
  have cnt: "spec_count w h ?g y x =
      of_bool (r (- 1) \<and> c (- 1)) + (of_bool (r (- 1) \<and> c 0) + (of_bool (r (- 1) \<and> c 1) + (of_bool (r 0 \<and> c (- 1))
        + (of_bool (r 0 \<and> c 1) + (of_bool (r 1 \<and> c (- 1)) + (of_bool (r 1 \<and> c 0) + of_bool (r 1 \<and> c 1)))))))"
    by (simp only: spec_count_def neighbour_offsets_eq list.map sum_list.Cons sum_list.Nil nb add_0_right)
  have rows1: "r 0 \<longleftrightarrow> (y = y0 \<or> y = (y0 + 1) mod h)"
    unfolding r_def by (rule block_rows(1) [OF assms(2,7,8,3,4)])
  have rows2: "r 0 \<Longrightarrow> r (- 1) \<noteq> r 1"
    unfolding r_def by (rule block_rows(2) [OF assms(2,7,8,3,4)])
  have rows3: "\<not> r 0 \<Longrightarrow> \<not> (r (- 1) \<and> r 1)"
    unfolding r_def by (rule block_rows(3) [OF assms(2,7,8,3,4)])
  have cols1: "c 0 \<longleftrightarrow> (x = x0 \<or> x = (x0 + 1) mod w)"
    unfolding c_def by (rule block_rows(1) [OF assms(1,9,10,5,6)])
  have cols2: "c 0 \<Longrightarrow> c (- 1) \<noteq> c 1"
    unfolding c_def by (rule block_rows(2) [OF assms(1,9,10,5,6)])
  have cols3: "\<not> c 0 \<Longrightarrow> \<not> (c (- 1) \<and> c 1)"
    unfolding c_def by (rule block_rows(3) [OF assms(1,9,10,5,6)])
  have alive: "spec_alive ?g y x = (r 0 \<and> c 0)"
    using nth_grid_of [OF assms(7-10)] by (simp add: spec_alive_def block_grid_def in_block_def rows1 cols1)
  have inb: "in_block w h y0 x0 y x = (r 0 \<and> c 0)"
    by (simp add: in_block_def rows1 cols1)
  have k: "(if r 0 \<and> c 0 then spec_count w h ?g y x \<in> {2, 3} else spec_count w h ?g y x = 3)
             = (r 0 \<and> c 0)"
    unfolding cnt by (rule block_count_bool [OF rows2 rows3 cols2 cols3])
  show ?thesis
    unfolding spec_conway_def Let_def alive inb
    by (cases "r 0 \<and> c 0") (use k in auto)
qed

lemma block_grid_wf: "0 \<le> w \<Longrightarrow> 0 \<le> h \<Longrightarrow> wf_grid w h (block_grid w h y0 x0)"
  unfolding block_grid_def by (rule wf_grid_of)

lemma block_grid_bits: "bit_valued (block_grid w h y0 x0)"
  unfolding block_grid_def by (rule bit_valued_grid_of) simp

lemma block_step_life:
  assumes "4 \<le> w" "4 \<le> h" "0 \<le> y0" "y0 < h" "0 \<le> x0" "x0 < w" "wf_grid w h nxt" "dims_fit w h"
  shows "step_life w h (block_grid w h y0 x0, nxt) = Some (block_grid w h y0 x0, block_grid w h y0 x0)"
proof -
  let ?g = "block_grid w h y0 x0"
  have wf: "wf_grid w h ?g" using assms(1,2) by (intro block_grid_wf) simp_all
  have "grid_of w h (spec_conway w h ?g) = grid_of w h (\<lambda>y x. of_bool (in_block w h y0 x0 y x))"
    using assms(1-6) by (intro grid_of_cong block_cell_stable)
  then have "grid_of w h (spec_conway w h ?g) = ?g" by (simp only: block_grid_def)
  with step_life_result [OF wf assms(7,8)] show ?thesis by simp
qed

lemma block_step_rule:
  assumes "4 \<le> w" "4 \<le> h" "0 \<le> y0" "y0 < h" "0 \<le> x0" "x0 < w" "wf_grid w h nxt" "dims_fit w h"
  shows "step_rule (B conway_tables) (S conway_tables) w h (block_grid w h y0 x0, nxt)
           = Some (block_grid w h y0 x0, block_grid w h y0 x0)"
proof -
  let ?g = "block_grid w h y0 x0"
  have wf: "wf_grid w h ?g" using assms(1,2) by (intro block_grid_wf) simp_all
  have "step_rule (B conway_tables) (S conway_tables) w h (?g, nxt) = step_life w h (?g, nxt)"
    using wf assms(7) dims_fit_range [OF assms(8)] bit_valued_counts [OF wf block_grid_bits]
    by (intro step_life_rule) simp_all
  with block_step_life [OF assms] show ?thesis by simp
qed

lemma fixed_point_run:
  assumes step: "\<And>n. wf_grid w h n \<Longrightarrow> stepf (g, n) = Some (g, g)"
    and "wf_grid w h g" "wf_grid w h nxt"
  shows "\<exists>nxt'. run_iterations (\<lambda>i st. map_option (\<lambda>s'. (s', snd st + 1)) (stepf (fst st))) js ((g, nxt), k)
            = Some ((g, nxt'), k + length js) \<and> wf_grid w h nxt'"
  using assms(3)
proof (induction js arbitrary: nxt k)
  case Nil
  then show ?case by simp
next
  case (Cons i js)
  from Cons.IH [OF assms(2), of "k + 1"] step [OF Cons.prems]
  show ?case by simp
qed

lemma fixed_point_benchmark:
  assumes step: "\<And>n. wf_grid w h n \<Longrightarrow> stepf (g, n) = Some (g, g)"
    and "wf_grid w h g" "wf_grid w h nxt"
  shows "\<exists>nxt'. benchmark_loop stepf steps ((g, nxt), 0) = Some ((g, nxt'), nat steps)"
  using fixed_point_run [where stepf = stepf and g = g and w = w and h = h and nxt = nxt
      and k = 0 and js = "[0..steps - 1]", OF assms]
  by (auto simp: benchmark_loop_def for_lt_run)

text \<open>
  C8, as stated, fails for wide grids: on the torus of 4 rows and \<open>2^30\<close> columns the
  step on the grid with a 2x2 block at \<open>(1, 1)\<close> is undefined, because the index
  arithmetic of the last column exceeds \<open>INT_MAX\<close>.
\<close>
theorem block_undefined_wide:
  "(4::int) \<le> 1073741824 \<and> (4::int) \<le> 4
   \<and> wf_grid 1073741824 4 (block_grid 1073741824 4 1 1)
   \<and> cell (block_grid 1073741824 4 1 1) 1 1 = Some 1
   \<and> step_life 1073741824 4 (block_grid 1073741824 4 1 1, block_grid 1073741824 4 1 1) = None"
proof (intro conjI)
  show "(4::int) \<le> 1073741824" "(4::int) \<le> 4" by simp_all
  show wf: "wf_grid 1073741824 4 (block_grid 1073741824 4 1 1)"
    by (rule block_grid_wf) simp_all
  show "cell (block_grid 1073741824 4 1 1) 1 1 = Some 1"
    unfolding block_grid_def by (subst cell_grid_of) (simp_all add: in_block_def)
  show "step_life 1073741824 4 (block_grid 1073741824 4 1 1, block_grid 1073741824 4 1 1) = None"
    using step_life_eq [OF wf wf] wide_unfit [of 4] by (simp add: INT_MAX_def)
qed

text \<open>
  C8, amended. Under the default rule, on a torus whose width and height are at least 4
  and at most \<open>2^30 - 1\<close>, a 2x2 block of live cells on an otherwise dead grid is a fixed
  point of the step, for the Conway kernel and for the table-driven kernel with the
  default tables: after one step, and after any number of steps of the driver's loop, the
  current buffer is the same grid. Every grid of these dimensions whose live cells are
  exactly those of the block is this grid.
\<close>
theorem block_still_life:
  assumes "4 \<le> w" "4 \<le> h" "0 \<le> y0" "y0 < h" "0 \<le> x0" "x0 < w" "wf_grid w h nxt" "dims_fit w h"
  shows "step_life w h (block_grid w h y0 x0, nxt) = Some (block_grid w h y0 x0, block_grid w h y0 x0)
       \<and> step_rule (B conway_tables) (S conway_tables) w h (block_grid w h y0 x0, nxt)
           = Some (block_grid w h y0 x0, block_grid w h y0 x0)
       \<and> (\<exists>nxt'. benchmark_loop (step_life w h) steps ((block_grid w h y0 x0, nxt), 0)
                    = Some ((block_grid w h y0 x0, nxt'), nat steps))
       \<and> (\<exists>nxt'. benchmark_loop (step_rule (B conway_tables) (S conway_tables) w h) steps
                      ((block_grid w h y0 x0, nxt), 0)
                    = Some ((block_grid w h y0 x0, nxt'), nat steps))
       \<and> (\<forall>g. wf_grid w h g \<and>
                (\<forall>y x. 0 \<le> y \<and> y < h \<and> 0 \<le> x \<and> x < w \<longrightarrow>
                   cell g y x = Some (of_bool (in_block w h y0 x0 y x)))
              \<longrightarrow> g = block_grid w h y0 x0)"
proof -
  have wf: "wf_grid w h (block_grid w h y0 x0)" using assms(1,2) by (intro block_grid_wf) simp_all
  have "g = block_grid w h y0 x0"
    if "wf_grid w h g \<and> (\<forall>y x. 0 \<le> y \<and> y < h \<and> 0 \<le> x \<and> x < w \<longrightarrow>
                   cell g y x = Some (of_bool (in_block w h y0 x0 y x)))" for g
  proof (rule grid_ext [OF _ wf])
    show "wf_grid w h g" using that by simp
    fix y x assume r: "0 \<le> y" "y < h" "0 \<le> x" "x < w"
    with that cell_grid_of [OF r] show "cell g y x = cell (block_grid w h y0 x0) y x"
      by (simp add: block_grid_def)
  qed
  moreover have sl: "step_life w h (block_grid w h y0 x0, n) = Some (block_grid w h y0 x0, block_grid w h y0 x0)"
    if "wf_grid w h n" for n
    using assms(1-6) that assms(8) by (rule block_step_life)
  moreover have sr: "step_rule (B conway_tables) (S conway_tables) w h (block_grid w h y0 x0, n)
                       = Some (block_grid w h y0 x0, block_grid w h y0 x0)"
    if "wf_grid w h n" for n
    using assms(1-6) that assms(8) by (rule block_step_rule)
  ultimately show ?thesis
    using sl [OF assms(7)] sr [OF assms(7)]
      fixed_point_benchmark [where stepf = "step_life w h" and g = "block_grid w h y0 x0"
        and w = w and h = h and nxt = nxt, OF sl wf assms(7)]
      fixed_point_benchmark [where stepf = "step_rule (B conway_tables) (S conway_tables) w h"
        and g = "block_grid w h y0 x0" and w = w and h = h and nxt = nxt, OF sr wf assms(7)]
    by simp
qed

theorem block_still_life_witness:
  "(4::int) \<le> 5 \<and> (4::int) \<le> 4 \<and> (0::int) \<le> 1 \<and> (1::int) < 4 \<and> (0::int) \<le> 2 \<and> (2::int) < 5
   \<and> wf_grid 5 4 [[0,0,0,0,0],[0,0,0,0,0],[0,0,0,0,0],[0,0,0,0,0]] \<and> dims_fit 5 4
   \<and> block_grid 5 4 1 2 = [[0,0,0,0,0],[0,0,1,1,0],[0,0,1,1,0],[0,0,0,0,0]]
   \<and> step_life 5 4 (block_grid 5 4 1 2, [[0,0,0,0,0],[0,0,0,0,0],[0,0,0,0,0],[0,0,0,0,0]])
        = Some (block_grid 5 4 1 2, block_grid 5 4 1 2)
   \<and> (\<exists>nxt'. benchmark_loop (step_life 5 4) 3
                 ((block_grid 5 4 1 2, [[0,0,0,0,0],[0,0,0,0,0],[0,0,0,0,0],[0,0,0,0,0]]), 0)
               = Some ((block_grid 5 4 1 2, nxt'), nat 3))"
proof -
  let ?z = "[[0,0,0,0,0],[0,0,0,0,0],[0,0,0,0,0],[0,0,0,0,0]] :: Grid"
  have h: "(4::int) \<le> 5" "(4::int) \<le> 4" "(0::int) \<le> 1" "(1::int) < 4" "(0::int) \<le> 2" "(2::int) < 5"
    "wf_grid 5 4 ?z" "dims_fit 5 4"
    by (simp_all add: wf_grid_def dims_fit_def INT_MAX_def)
  have b: "block_grid 5 4 1 2 = [[0,0,0,0,0],[0,0,1,1,0],[0,0,1,1,0],[0,0,0,0,0]]"
    by code_simp
  from block_still_life [OF h, where steps = 3] h b show ?thesis by blast
qed

end
